theory Spec2Isabelle
  imports Main
begin

section \<open>Tiles, elements and priorities\<close>

text \<open>
  The embedding follows \<^verbatim>\<open>src/ol/tilequeue.js\<close>. A trailing underscore is not a legal
  end of a name here, so the private members \<^verbatim>\<open>tilesLoading_\<close>, \<^verbatim>\<open>maxTotalLoading_\<close>,
  \<^verbatim>\<open>maxNewLoads_\<close> are written without it and the private method
  \<^verbatim>\<open>loadMoreTiles_\<close> is called \<open>loadMoreTiles_private\<close>.

  Objects are kept in explicit stores: tiles and queues are referred to by natural
  numbers, since several queues may hold the same tile.
\<close>

text \<open>
  Modelled from the spec: \<^verbatim>\<open>ol.TileState\<close> is not part of the sources at hand. The
  five states are the ones the data model lists (Idle, Loading, Loaded, Error, Empty),
  under the names \<^verbatim>\<open>tilequeue.js\<close> uses for them.
\<close>

datatype TileState = IDLE | LOADING | LOADED | ERROR | EMPTY

type_synonym tile_ref = nat
type_synonym queue_ref = nat

text \<open>
  Modelled from the spec: \<^verbatim>\<open>ol.structs.PriorityQueue.DROP\<close> is not part of the sources
  at hand. A priority is a number or the distinguished sentinel \<open>DROP\<close>, which no
  element's own priority can be.
\<close>

datatype priority = Prio int | DROP

text \<open>
  An element is the array \<^verbatim>\<open>[tile, ...]\<close> the priority function is applied to:
  entry 0 is the tile, the remaining entries are the scheduling context.
\<close>

datatype 'a element = Element (tile: tile_ref) (args: 'a)

text \<open>
  Modelled from the spec: the one error of the priority queue, raised by a dequeue when
  nothing is queued.
\<close>

datatype error = EmptyQueueError

section \<open>The priority queue underneath\<close>

text \<open>
  Modelled from the spec: \<^verbatim>\<open>ol.structs.PriorityQueue\<close>, the class \<^verbatim>\<open>ol.TileQueue\<close>
  extends, is not part of the sources at hand. Its storage is two index-aligned
  sequences, \<open>elements\<close> and \<open>priorities\<close>, and a mapping \<open>indexMap\<close> from key to
  current index; \<open>priorityFunction\<close> is the priority function the constructor
  receives (a field that can be replaced later).
\<close>

record 'a PriorityQueue =
  elements :: "'a element list"
  priorities :: "priority list"
  indexMap :: "nat \<rightharpoonup> nat"
  priorityFunction :: "'a element \<Rightarrow> priority"

text \<open>
  Modelled from the spec: \<^verbatim>\<open>ol.Tile.getKey\<close> is not part of the sources at hand; the
  key of a tile is its own stable identifier, here its reference. The key function
  that \<^verbatim>\<open>ol.TileQueue\<close> passes to its base class is \<^verbatim>\<open>element[0].getKey()\<close>.
\<close>

definition keyFunction :: "'a element \<Rightarrow> nat" where
  "keyFunction element = tile element"

text \<open>
  Modelled from the spec: the order of the heap. Lower priority values are more urgent;
  \<open>DROP\<close> is above every number.
\<close>

fun prio_less :: "priority \<Rightarrow> priority \<Rightarrow> bool" where
  "prio_less (Prio a) (Prio b) = (a < b)"
| "prio_less (Prio a) DROP = True"
| "prio_less DROP b = False"

text \<open>Modelled from the spec: the number of queued elements.\<close>

definition getCount :: "('a, 'z) PriorityQueue_scheme \<Rightarrow> nat" where
  "getCount h = length (elements h)"

text \<open>
  Modelled from the spec: exchanging two slots, with the index map updated on the swap.
\<close>

definition swap :: "nat \<Rightarrow> nat \<Rightarrow> ('a, 'z) PriorityQueue_scheme \<Rightarrow> ('a, 'z) PriorityQueue_scheme" where
  "swap i j h =
     h\<lparr>elements := (elements h)[i := elements h ! j, j := elements h ! i],
       priorities := (priorities h)[i := priorities h ! j, j := priorities h ! i],
       indexMap := (indexMap h)(keyFunction (elements h ! j) \<mapsto> i,
                                keyFunction (elements h ! i) \<mapsto> j)\<rparr>"

text \<open>
  Modelled from the spec: sifting the slot \<open>i\<close> up towards the root while its priority
  is below its parent's.
\<close>

function siftUp :: "nat \<Rightarrow> ('a, 'z) PriorityQueue_scheme \<Rightarrow> ('a, 'z) PriorityQueue_scheme" where
  "siftUp i h =
     (if 0 < i \<and> i < length (priorities h) \<and> i < length (elements h)
         \<and> prio_less (priorities h ! i) (priorities h ! ((i - 1) div 2))
      then siftUp ((i - 1) div 2) (swap i ((i - 1) div 2) h)
      else h)"
  by pat_completeness auto
termination
  by (relation "measure (\<lambda>(i, h). i)") auto

declare siftUp.simps [simp del]

text \<open>
  Modelled from the spec: among the slot \<open>i\<close> and its children, the slot of the lowest
  priority (the slot \<open>i\<close> itself unless a child is strictly below it).
\<close>

definition smallest :: "nat \<Rightarrow> ('a, 'z) PriorityQueue_scheme \<Rightarrow> nat" where
  "smallest i h =
     (let n = min (length (priorities h)) (length (elements h));
          l = 2 * i + 1;
          r = 2 * i + 2;
          m = (if l < n \<and> prio_less (priorities h ! l) (priorities h ! i) then l else i)
      in if r < n \<and> prio_less (priorities h ! r) (priorities h ! m) then r else m)"

text \<open>
  Modelled from the spec: sifting the slot \<open>i\<close> down, exchanging it with its smaller
  child while a child has a lower priority.
\<close>

function siftDown :: "nat \<Rightarrow> ('a, 'z) PriorityQueue_scheme \<Rightarrow> ('a, 'z) PriorityQueue_scheme" where
  "siftDown i h =
     (if smallest i h \<noteq> i then siftDown (smallest i h) (swap i (smallest i h) h) else h)"
  by pat_completeness auto
termination
  by (relation "measure (\<lambda>(i, h). length (priorities h) - i)")
     (auto simp: smallest_def swap_def Let_def split: if_splits)

declare siftDown.simps [simp del]

text \<open>
  Modelled from the spec: \<open>enqueue\<close> of the base class. A key already queued makes the
  call a no-op; otherwise the element and its priority are appended, the key is
  registered, and the new slot is sifted up.
\<close>

definition PriorityQueue_enqueue ::
  "'a element \<Rightarrow> ('a, 'z) PriorityQueue_scheme \<Rightarrow> ('a, 'z) PriorityQueue_scheme" where
  "PriorityQueue_enqueue element h =
     (let key = keyFunction element in
      if indexMap h key \<noteq> None then h
      else siftUp (length (elements h))
             (h\<lparr>elements := elements h @ [element],
                priorities := priorities h @ [priorityFunction h element],
                indexMap := (indexMap h)(key \<mapsto> length (elements h))\<rparr>))"

text \<open>
  Modelled from the spec: \<open>dequeue\<close> of the base class. It fails with
  \<open>EmptyQueueError\<close> when nothing is queued. Otherwise the root is swapped with the
  last slot, the sequences shrink by one, the old root's key leaves the index map, the
  new root is sifted down, and the old root is returned.
\<close>

definition PriorityQueue_dequeue ::
  "('a, 'z) PriorityQueue_scheme \<Rightarrow> error + ('a element \<times> ('a, 'z) PriorityQueue_scheme)" where
  "PriorityQueue_dequeue h =
     (if getCount h = 0 then Inl EmptyQueueError
      else
        let root = elements h ! 0;
            n = length (elements h) - 1;
            h1 = swap 0 n h;
            h2 = h1\<lparr>elements := take n (elements h1),
                    priorities := take n (priorities h1),
                    indexMap := (indexMap h1)(keyFunction root := None)\<rparr>
        in Inr (root, siftDown 0 h2))"

section \<open>The tile queue\<close>

text \<open>
  \<^verbatim>\<open>ol.TileQueue\<close> extends the priority queue with the number of tiles loading and
  the two thresholds. The thresholds are numbers of tiles (unsigned in the queue's
  interface); the number of tiles loading is an integer, since the handler of a change
  event decrements it without a check. The callback \<^verbatim>\<open>tileChangeCallback_\<close> is opaque
  to the queue and does not call back into it; the field \<open>tileChangeCallbackCalls\<close>
  counts how often it has been invoked.
\<close>

record 'a TileQueue = "'a PriorityQueue" +
  tileChangeCallbackCalls :: nat
  tilesLoading :: int
  maxTotalLoading :: nat
  maxNewLoads :: nat

text \<open>
  The store: the state of every tile, the queues listening for the change event of
  every tile (in the order they registered), and every queue.
\<close>

record 'a world =
  tileStates :: "tile_ref \<Rightarrow> TileState"
  listeners :: "tile_ref \<Rightarrow> queue_ref list"
  queues :: "queue_ref \<Rightarrow> 'a TileQueue"

text \<open>The constructor: nothing queued, nothing loading, both thresholds 16.\<close>

definition new_TileQueue :: "('a element \<Rightarrow> priority) \<Rightarrow> 'a TileQueue" where
  "new_TileQueue tilePriorityFunction =
     \<lparr>elements = [], priorities = [], indexMap = Map.empty,
      priorityFunction = tilePriorityFunction,
      tileChangeCallbackCalls = 0, tilesLoading = 0,
      maxTotalLoading = 16, maxNewLoads = 16\<rparr>"

definition getTilesLoading :: "'a TileQueue \<Rightarrow> int" where
  "getTilesLoading tq = tilesLoading tq"

text \<open>
  Modelled from the spec: the loadable item (\<^verbatim>\<open>ol.Tile\<close>) and the event registry
  (\<^verbatim>\<open>goog.events\<close>) are not part of the sources at hand. \<open>getState\<close> reads the state;
  \<open>load\<close> is fire-and-forget and takes an Idle item to Loading (every signal of the
  item arrives later, as a change event of its own); \<open>listen\<close> and \<open>unlisten\<close>
  subscribe a queue to an item's change event and release the subscription. An item
  that signals its change to Loading before \<open>load\<close> returns is modelled further down.
\<close>

definition getState :: "tile_ref \<Rightarrow> 'a world \<Rightarrow> TileState" where
  "getState t w = tileStates w t"

definition load :: "tile_ref \<Rightarrow> 'a world \<Rightarrow> 'a world" where
  "load t w = (if tileStates w t = IDLE then w\<lparr>tileStates := (tileStates w)(t := LOADING)\<rparr> else w)"

definition listen :: "tile_ref \<Rightarrow> queue_ref \<Rightarrow> 'a world \<Rightarrow> 'a world" where
  "listen t q w =
     (if q \<in> set (listeners w t) then w
      else w\<lparr>listeners := (listeners w)(t := listeners w t @ [q])\<rparr>)"

definition unlisten :: "tile_ref \<Rightarrow> queue_ref \<Rightarrow> 'a world \<Rightarrow> 'a world" where
  "unlisten t q w = w\<lparr>listeners := (listeners w)(t := removeAll q (listeners w t))\<rparr>"

text \<open>Updating the queue \<open>q\<close> (the object \<^verbatim>\<open>this\<close>) in the store.\<close>

definition setQueue :: "queue_ref \<Rightarrow> 'a TileQueue \<Rightarrow> 'a world \<Rightarrow> 'a world" where
  "setQueue q tq w = w\<lparr>queues := (queues w)(q := tq)\<rparr>"

text \<open>
  One round of the loop of \<^verbatim>\<open>loadMoreTiles_\<close>, entered with the local counter
  \<open>newLoads\<close>: the result is the store and the counter after the round. A failing
  \<open>dequeue\<close> leaves the round with the error. Here no handler runs while
  \<^verbatim>\<open>tile.load()\<close> does: the tile's signals are events that come after the round.
\<close>

definition loadMoreTiles_body :: "queue_ref \<Rightarrow> nat \<Rightarrow> 'a world \<Rightarrow> error + ('a world \<times> nat)" where
  "loadMoreTiles_body q newLoads w =
     (case PriorityQueue_dequeue (queues w q) of
        Inl err \<Rightarrow> Inl err
      | Inr (tileStruct, tq) \<Rightarrow>
          let w1 = setQueue q tq w;
              priority = priorityFunction (queues w1 q) tileStruct
          in if priority \<noteq> DROP then
               if getState (tile tileStruct) w1 = IDLE then
                 let w2 = listen (tile tileStruct) q w1;
                     w3 = load (tile tileStruct) w2;
                     w4 = setQueue q ((queues w3 q)\<lparr>tilesLoading := tilesLoading (queues w3 q) + 1\<rparr>) w3
                 in Inr (w4, newLoads + 1)
               else Inr (w1, newLoads)
             else Inr (w1, newLoads))"

text \<open>
  The loop of \<^verbatim>\<open>loadMoreTiles_\<close>. The two thresholds are read once, before the loop,
  into \<open>maxTotalLoading'\<close> and \<open>maxNewLoads'\<close>. The result is the store after the loop
  and the final value of \<open>newLoads\<close>.
\<close>

function loadMoreTiles_loop ::
  "queue_ref \<Rightarrow> nat \<Rightarrow> nat \<Rightarrow> nat \<Rightarrow> 'a world \<Rightarrow> error + ('a world \<times> nat)" where
  "loadMoreTiles_loop q maxTotalLoading' maxNewLoads' newLoads w =
     (if tilesLoading (queues w q) < int maxTotalLoading' \<and> newLoads < maxNewLoads'
         \<and> getCount (queues w q) > 0
      then
        (case loadMoreTiles_body q newLoads w of
           Inl err \<Rightarrow> Inl err
         | Inr (w', newLoads') \<Rightarrow> loadMoreTiles_loop q maxTotalLoading' maxNewLoads' newLoads' w')
      else Inr (w, newLoads))"
  by pat_completeness auto

text \<open>The loop ends: every round takes one element out of the queue.\<close>

lemma length_elements_swap [simp]: "length (elements (swap i j h)) = length (elements h)"
  by (simp add: swap_def)

lemma length_priorities_swap [simp]: "length (priorities (swap i j h)) = length (priorities h)"
  by (simp add: swap_def)

lemma length_elements_siftDown [simp]: "length (elements (siftDown i h)) = length (elements h)"
proof (induction i h rule: siftDown.induct)
  case (1 i h)
  show ?case
  proof (cases "smallest i h = i")
    case True
    then show ?thesis by (subst siftDown.simps) simp
  next
    case False
    then have "siftDown i h = siftDown (smallest i h) (swap i (smallest i h) h)"
      by (subst siftDown.simps) simp
    with False "1.IH" show ?thesis by simp
  qed
qed

lemma getCount_dequeue:
  "PriorityQueue_dequeue h = Inr (e, h') \<Longrightarrow> getCount h' = getCount h - 1 \<and> 0 < getCount h"
  by (auto simp: PriorityQueue_dequeue_def getCount_def Let_def split: if_splits)

lemma queues_setQueue [simp]: "queues (setQueue q tq w) = (queues w)(q := tq)"
  by (simp add: setQueue_def)

lemma tileStates_setQueue [simp]: "tileStates (setQueue q tq w) = tileStates w"
  by (simp add: setQueue_def)

lemma listeners_setQueue [simp]: "listeners (setQueue q tq w) = listeners w"
  by (simp add: setQueue_def)

lemma queues_listen [simp]: "queues (listen t q w) = queues w"
  by (simp add: listen_def)

lemma tileStates_listen [simp]: "tileStates (listen t q w) = tileStates w"
  by (simp add: listen_def)

lemma queues_load [simp]: "queues (load t w) = queues w"
  by (simp add: load_def)

lemma listeners_load [simp]: "listeners (load t w) = listeners w"
  by (simp add: load_def)

lemma queues_unlisten [simp]: "queues (unlisten t q w) = queues w"
  by (simp add: unlisten_def)

lemma tileStates_unlisten [simp]: "tileStates (unlisten t q w) = tileStates w"
  by (simp add: unlisten_def)

lemma getCount_tilesLoading_update [simp]: "getCount (tq\<lparr>tilesLoading := n\<rparr>) = getCount tq"
  by (simp add: getCount_def)

lemma getCount_loadMoreTiles_body:
  "loadMoreTiles_body q n w = Inr (w', n') \<Longrightarrow>
     getCount (queues w' q) = getCount (queues w q) - 1 \<and> 0 < getCount (queues w q)"
  by (auto simp: loadMoreTiles_body_def Let_def dest: getCount_dequeue
           split: sum.splits prod.splits if_splits)

termination loadMoreTiles_loop
  by (relation "measure (\<lambda>(q, mt, mn, n, w). getCount (queues w q))")
     (auto dest: getCount_loadMoreTiles_body)

declare loadMoreTiles_loop.simps [simp del]

text \<open>
  \<^verbatim>\<open>loadMoreTiles_\<close>: dequeues tiles until the queue is saturated. The method returns
  nothing; the result here is the store it leaves.
\<close>

definition loadMoreTiles_private :: "queue_ref \<Rightarrow> 'a world \<Rightarrow> error + 'a world" where
  "loadMoreTiles_private q w =
     (case loadMoreTiles_loop q (maxTotalLoading (queues w q)) (maxNewLoads (queues w q)) 0 w of
        Inl err \<Rightarrow> Inl err
      | Inr (w', newLoads) \<Rightarrow> Inr w')"

text \<open>\<^verbatim>\<open>enqueue\<close>: the base class's enqueue, then the loading piece is kicked off.\<close>

definition enqueue :: "queue_ref \<Rightarrow> 'a element \<Rightarrow> 'a world \<Rightarrow> error + 'a world" where
  "enqueue q element w =
     loadMoreTiles_private q (setQueue q (PriorityQueue_enqueue element (queues w q)) w)"

text \<open>
  \<^verbatim>\<open>handleTileChange\<close>, the listener of a tile's change event; \<open>t\<close> is the event's
  target.
\<close>

definition handleTileChange :: "queue_ref \<Rightarrow> tile_ref \<Rightarrow> 'a world \<Rightarrow> error + 'a world" where
  "handleTileChange q t w =
     (let state = getState t w;
          w' = (if state = LOADED \<or> state = ERROR \<or> state = EMPTY then
                  let w1 = unlisten t q w;
                      w2 = setQueue q ((queues w1 q)\<lparr>tilesLoading := tilesLoading (queues w1 q) - 1\<rparr>) w1
                  in setQueue q ((queues w2 q)\<lparr>tileChangeCallbackCalls :=
                                    tileChangeCallbackCalls (queues w2 q) + 1\<rparr>) w2
                else w)
      in loadMoreTiles_private q w')"

text \<open>
  \<^verbatim>\<open>loadMoreTiles\<close>: keeps its old name but now sets the loading thresholds, then
  runs the loop.
\<close>

definition loadMoreTiles :: "queue_ref \<Rightarrow> nat \<Rightarrow> nat \<Rightarrow> 'a world \<Rightarrow> error + 'a world" where
  "loadMoreTiles q maxTotalLoading' maxNewLoads' w =
     (let w1 = setQueue q ((queues w q)\<lparr>maxTotalLoading := maxTotalLoading'\<rparr>) w;
          w2 = setQueue q ((queues w1 q)\<lparr>maxNewLoads := maxNewLoads'\<rparr>) w1
      in loadMoreTiles_private q w2)"

section \<open>Events\<close>

text \<open>
  Modelled from the spec: the dispatch of a tile's change event (\<^verbatim>\<open>goog.events\<close>, not
  part of the sources at hand). The handlers of the queues subscribed when the event
  fires are called in the order of their subscription, each to completion; a queue
  that has been unsubscribed in between is skipped.
\<close>

fun dispatchChange :: "tile_ref \<Rightarrow> queue_ref list \<Rightarrow> 'a world \<Rightarrow> error + 'a world" where
  "dispatchChange t [] w = Inr w"
| "dispatchChange t (q # qs) w =
     (if q \<in> set (listeners w t) then
        (case handleTileChange q t w of
           Inl err \<Rightarrow> Inl err
         | Inr w' \<Rightarrow> dispatchChange t qs w')
      else dispatchChange t qs w)"

text \<open>
  What happens to a store from outside: a caller enqueues an element into a queue, a
  caller sets the thresholds of a queue, or a tile takes a new state and signals it.
\<close>

datatype 'a event =
    Enqueue queue_ref "'a element"
  | LoadMoreTiles queue_ref nat nat
  | TileChange tile_ref TileState

fun step :: "'a event \<Rightarrow> 'a world \<Rightarrow> error + 'a world" where
  "step (Enqueue q element) w = enqueue q element w"
| "step (LoadMoreTiles q maxTotalLoading' maxNewLoads') w =
     loadMoreTiles q maxTotalLoading' maxNewLoads' w"
| "step (TileChange t state) w =
     dispatchChange t (listeners w t) (w\<lparr>tileStates := (tileStates w)(t := state)\<rparr>)"

fun run :: "'a event list \<Rightarrow> 'a world \<Rightarrow> error + 'a world" where
  "run [] w = Inr w"
| "run (ev # evs) w = (case step ev w of Inl err \<Rightarrow> Inl err | Inr w' \<Rightarrow> run evs w')"

text \<open>
  The store at the start: every tile Idle, nobody listening, every queue as the
  constructor leaves it.
\<close>

definition initial :: "('a element \<Rightarrow> priority) \<Rightarrow> 'a world" where
  "initial tilePriorityFunction =
     \<lparr>tileStates = (\<lambda>t. IDLE), listeners = (\<lambda>t. []),
      queues = (\<lambda>q. new_TileQueue tilePriorityFunction)\<rparr>"

text \<open>
  A sequence of completions: each is the signal of a tile that is Loading when it
  fires, and takes the tile to Loaded, Error or Empty.
\<close>

fun loadsFinish :: "(tile_ref \<times> TileState) list \<Rightarrow> 'a world \<Rightarrow> bool" where
  "loadsFinish [] w = True"
| "loadsFinish ((t, s) # cs) w =
     (tileStates w t = LOADING \<and> (s = LOADED \<or> s = ERROR \<or> s = EMPTY)
      \<and> (case step (TileChange t s) w of Inl err \<Rightarrow> False | Inr w' \<Rightarrow> loadsFinish cs w'))"

section \<open>A tile that signals its change to Loading inside load\<close>

text \<open>
  The handler is registered on the tile before \<^verbatim>\<open>tile.load()\<close> is called, and it is
  written for change events whose state is not terminal: it runs a pass on each of
  them. When the tile signals its change from Idle to Loading before \<^verbatim>\<open>load()\<close>
  returns, that pass runs inside the round that started the load, before the round has
  counted the load. The definitions of this section follow the same code as the ones
  above, with this one difference: \<^verbatim>\<open>load()\<close> dispatches the change event.

  The nesting of passes need not end in a store with infinitely many queues, so the
  definitions take fuel: each pass and each round of a loop uses one unit, and \<open>None\<close>
  is a pass that has run out of it.
\<close>

text \<open>Going on with the result of a step, unless it failed or ran out of fuel.\<close>

definition andThen :: "(error + 'x) option \<Rightarrow> ('x \<Rightarrow> (error + 'y) option) \<Rightarrow> (error + 'y) option" where
  "andThen r f = (case r of None \<Rightarrow> None | Some (Inl err) \<Rightarrow> Some (Inl err) | Some (Inr x) \<Rightarrow> f x)"

text \<open>
  \<^verbatim>\<open>handleTileChange\<close>, as above, with the pass it ends in given as \<open>pass\<close>.
\<close>

definition handleTileChange_reentrant ::
  "(queue_ref \<Rightarrow> 'a world \<Rightarrow> (error + 'a world) option) \<Rightarrow>
   queue_ref \<Rightarrow> tile_ref \<Rightarrow> 'a world \<Rightarrow> (error + 'a world) option" where
  "handleTileChange_reentrant pass q t w =
     (let state = getState t w;
          w' = (if state = LOADED \<or> state = ERROR \<or> state = EMPTY then
                  let w1 = unlisten t q w;
                      w2 = setQueue q ((queues w1 q)\<lparr>tilesLoading := tilesLoading (queues w1 q) - 1\<rparr>) w1
                  in setQueue q ((queues w2 q)\<lparr>tileChangeCallbackCalls :=
                                    tileChangeCallbackCalls (queues w2 q) + 1\<rparr>) w2
                else w)
      in pass q w')"

text \<open>
  Modelled from the spec: the dispatch of a tile's change event (\<^verbatim>\<open>goog.events\<close>, not
  part of the sources at hand), as above, with the pass of the handlers given as
  \<open>pass\<close>.
\<close>

fun dispatchChange_reentrant ::
  "(queue_ref \<Rightarrow> 'a world \<Rightarrow> (error + 'a world) option) \<Rightarrow>
   tile_ref \<Rightarrow> queue_ref list \<Rightarrow> 'a world \<Rightarrow> (error + 'a world) option" where
  "dispatchChange_reentrant pass t [] w = Some (Inr w)"
| "dispatchChange_reentrant pass t (q # qs) w =
     (if q \<in> set (listeners w t) then
        andThen (handleTileChange_reentrant pass q t w) (dispatchChange_reentrant pass t qs)
      else dispatchChange_reentrant pass t qs w)"

text \<open>
  Modelled from the spec: \<^verbatim>\<open>ol.Tile.load\<close> is not part of the sources at hand. An Idle
  item becomes Loading and signals the change to its listeners at once; the terminal
  state arrives later, as an event of its own.
\<close>

definition load_signalling ::
  "(queue_ref \<Rightarrow> 'a world \<Rightarrow> (error + 'a world) option) \<Rightarrow>
   tile_ref \<Rightarrow> 'a world \<Rightarrow> (error + 'a world) option" where
  "load_signalling pass t w =
     (if tileStates w t = IDLE then
        dispatchChange_reentrant pass t (listeners w t)
          (w\<lparr>tileStates := (tileStates w)(t := LOADING)\<rparr>)
      else Some (Inr w))"

text \<open>
  One round of the loop of \<^verbatim>\<open>loadMoreTiles_\<close>, in the order of the source: the
  handler is registered, \<^verbatim>\<open>tile.load()\<close> runs (and with it the passes of the
  handlers), and only then is the load counted.
\<close>

definition loadMoreTiles_body_reentrant ::
  "(queue_ref \<Rightarrow> 'a world \<Rightarrow> (error + 'a world) option) \<Rightarrow>
   queue_ref \<Rightarrow> nat \<Rightarrow> 'a world \<Rightarrow> (error + ('a world \<times> nat)) option" where
  "loadMoreTiles_body_reentrant pass q newLoads w =
     (case PriorityQueue_dequeue (queues w q) of
        Inl err \<Rightarrow> Some (Inl err)
      | Inr (tileStruct, tq) \<Rightarrow>
          let w1 = setQueue q tq w;
              priority = priorityFunction (queues w1 q) tileStruct
          in if priority \<noteq> DROP then
               if getState (tile tileStruct) w1 = IDLE then
                 let w2 = listen (tile tileStruct) q w1
                 in andThen (load_signalling pass (tile tileStruct) w2)
                      (\<lambda>w3. let w4 = setQueue q
                                 ((queues w3 q)\<lparr>tilesLoading := tilesLoading (queues w3 q) + 1\<rparr>) w3
                            in Some (Inr (w4, newLoads + 1)))
               else Some (Inr (w1, newLoads))
             else Some (Inr (w1, newLoads)))"

text \<open>
  The loop of \<^verbatim>\<open>loadMoreTiles_\<close>. A pass nested in a round reads the thresholds of
  its own queue and starts its own counter at 0.
\<close>

fun loadMoreTiles_loop_reentrant ::
  "nat \<Rightarrow> queue_ref \<Rightarrow> nat \<Rightarrow> nat \<Rightarrow> nat \<Rightarrow> 'a world \<Rightarrow> (error + ('a world \<times> nat)) option" where
  "loadMoreTiles_loop_reentrant 0 q maxTotalLoading' maxNewLoads' newLoads w = None"
| "loadMoreTiles_loop_reentrant (Suc fuel) q maxTotalLoading' maxNewLoads' newLoads w =
     (if tilesLoading (queues w q) < int maxTotalLoading' \<and> newLoads < maxNewLoads'
         \<and> getCount (queues w q) > 0
      then
        andThen
          (loadMoreTiles_body_reentrant
             (\<lambda>q' v. andThen
                (loadMoreTiles_loop_reentrant fuel q'
                   (maxTotalLoading (queues v q')) (maxNewLoads (queues v q')) 0 v)
                (\<lambda>(v', newLoads'). Some (Inr v')))
             q newLoads w)
          (\<lambda>(w', newLoads'). loadMoreTiles_loop_reentrant fuel q maxTotalLoading' maxNewLoads' newLoads' w')
      else Some (Inr (w, newLoads)))"

declare loadMoreTiles_loop_reentrant.simps [simp del]

text \<open>\<^verbatim>\<open>loadMoreTiles_\<close>, the pass.\<close>

definition loadMoreTiles_private_reentrant ::
  "nat \<Rightarrow> queue_ref \<Rightarrow> 'a world \<Rightarrow> (error + 'a world) option" where
  "loadMoreTiles_private_reentrant fuel q w =
     andThen
       (loadMoreTiles_loop_reentrant fuel q
          (maxTotalLoading (queues w q)) (maxNewLoads (queues w q)) 0 w)
       (\<lambda>(w', newLoads). Some (Inr w'))"

text \<open>The events, with the passes they run.\<close>

fun step_reentrant :: "nat \<Rightarrow> 'a event \<Rightarrow> 'a world \<Rightarrow> (error + 'a world) option" where
  "step_reentrant fuel (Enqueue q element) w =
     loadMoreTiles_private_reentrant fuel q
       (setQueue q (PriorityQueue_enqueue element (queues w q)) w)"
| "step_reentrant fuel (LoadMoreTiles q maxTotalLoading' maxNewLoads') w =
     (let w1 = setQueue q ((queues w q)\<lparr>maxTotalLoading := maxTotalLoading'\<rparr>) w;
          w2 = setQueue q ((queues w1 q)\<lparr>maxNewLoads := maxNewLoads'\<rparr>) w1
      in loadMoreTiles_private_reentrant fuel q w2)"
| "step_reentrant fuel (TileChange t state) w =
     dispatchChange_reentrant (loadMoreTiles_private_reentrant fuel) t (listeners w t)
       (w\<lparr>tileStates := (tileStates w)(t := state)\<rparr>)"

fun run_reentrant :: "nat \<Rightarrow> 'a event list \<Rightarrow> 'a world \<Rightarrow> (error + 'a world) option" where
  "run_reentrant fuel [] w = Some (Inr w)"
| "run_reentrant fuel (ev # evs) w = andThen (step_reentrant fuel ev w) (run_reentrant fuel evs)"

section \<open>Auxiliary notions\<close>

text \<open>
  The store a round of the loop leaves when it starts the load of the tile \<open>t\<close>, after
  the dequeue has left the queue \<open>tq\<close>: the queue listens to the tile, the tile is
  Loading, and one more tile is loading.
\<close>

definition started :: "queue_ref \<Rightarrow> tile_ref \<Rightarrow> 'a TileQueue \<Rightarrow> 'a world \<Rightarrow> 'a world" where
  "started q t tq w =
     w\<lparr>tileStates := (tileStates w)(t := LOADING),
       listeners := (listeners w)(t := (if q \<in> set (listeners w t) then listeners w t
                                         else listeners w t @ [q])),
       queues := (queues w)(q := tq\<lparr>tilesLoading := tilesLoading tq + 1\<rparr>)\<rparr>"

text \<open>The loop of \<^verbatim>\<open>loadMoreTiles_\<close> stops when its condition fails.\<close>

definition saturated :: "queue_ref \<Rightarrow> nat \<Rightarrow> nat \<Rightarrow> nat \<Rightarrow> 'a world \<Rightarrow> bool" where
  "saturated q mt mn n w \<longleftrightarrow>
     \<not> (tilesLoading (queues w q) < int mt \<and> n < mn \<and> getCount (queues w q) > 0)"

text \<open>
  The store the handler of a change event leaves before it runs the loop, when the tile
  \<open>t\<close> has reached a terminal state: the queue's subscription to the tile is released,
  one tile less is loading, and the callback has been invoked once more.
\<close>

definition released :: "queue_ref \<Rightarrow> tile_ref \<Rightarrow> 'a world \<Rightarrow> 'a world" where
  "released q t w =
     w\<lparr>listeners := (listeners w)(t := removeAll q (listeners w t)),
       queues := (queues w)(q := (queues w q)
         \<lparr>tilesLoading := tilesLoading (queues w q) - 1,
          tileChangeCallbackCalls := tileChangeCallbackCalls (queues w q) + 1\<rparr>)\<rparr>"

text \<open>
  A store in which the queue \<open>q\<close> is the only one at work on the tiles \<open>T\<close>: it holds
  tiles of \<open>T\<close> only, the tiles Loading are among \<open>T\<close>, their number is the queue's
  number of tiles loading, and the queue listens to exactly the tiles Loading.
\<close>

definition accounted :: "tile_ref set \<Rightarrow> queue_ref \<Rightarrow> 'a world \<Rightarrow> bool" where
  "accounted T q w \<longleftrightarrow>
     finite T
     \<and> tile ` set (elements (queues w q)) \<subseteq> T
     \<and> {t. tileStates w t = LOADING} \<subseteq> T
     \<and> tilesLoading (queues w q) = int (card {t. tileStates w t = LOADING})
     \<and> (\<forall>t. listeners w t = (if tileStates w t = LOADING then [q] else []))"

text \<open>
  Such a store after a pass under the thresholds \<open>mt\<close> and \<open>mn\<close>: nothing is left
  queued, or the ceiling on the tiles loading is reached.
\<close>

definition steady :: "tile_ref set \<Rightarrow> queue_ref \<Rightarrow> nat \<Rightarrow> nat \<Rightarrow> 'a world \<Rightarrow> bool" where
  "steady T q mt mn w \<longleftrightarrow>
     accounted T q w
     \<and> maxTotalLoading (queues w q) = mt \<and> maxNewLoads (queues w q) = mn
     \<and> (getCount (queues w q) = 0 \<or> int mt \<le> tilesLoading (queues w q))"

section \<open>Example stores\<close>

text \<open>
  A queue with the thresholds 2 and 5, nothing loading, and three Idle tiles queued
  with equal priorities.
\<close>

definition threeQueued :: "unit world" where
  "threeQueued =
     setQueue 0
       ((new_TileQueue (\<lambda>e. Prio 0))
          \<lparr>elements := [Element 1 (), Element 2 (), Element 3 ()],
           priorities := [Prio 0, Prio 0, Prio 0],
           indexMap := [1 \<mapsto> 0, 2 \<mapsto> 1, 3 \<mapsto> 2],
           maxTotalLoading := 2, maxNewLoads := 5\<rparr>)
       (initial (\<lambda>e. Prio 0))"

text \<open>
  A queue that has started the load of tile 1: the tile is Loading, the queue listens
  to it, one tile is loading, nothing is queued.
\<close>

definition oneLoading :: "unit world" where
  "oneLoading =
     \<lparr>tileStates = (\<lambda>t. IDLE)(1 := LOADING),
      listeners = (\<lambda>t. [])(1 := [0]),
      queues = (\<lambda>q. new_TileQueue (\<lambda>e. Prio 0))
                 (0 := (new_TileQueue (\<lambda>e. Prio 0))\<lparr>tilesLoading := 1\<rparr>)\<rparr>"


text \<open>
  A queue that admitted the Idle tile 1 with priority 5, and whose priority function
  now answers \<open>DROP\<close>.
\<close>

definition staleQueued :: "unit world" where
  "staleQueued =
     setQueue 0
       ((new_TileQueue (\<lambda>e. DROP))
          \<lparr>elements := [Element 1 ()], priorities := [Prio 5], indexMap := [1 \<mapsto> 0]\<rparr>)
       (initial (\<lambda>e. DROP))"

text \<open>Tile 1 is Loading, and queued once more in the queue that loads it.\<close>

definition busyQueued :: "unit world" where
  "busyQueued =
     setQueue 0
       ((queues oneLoading 0)
          \<lparr>elements := [Element 1 ()], priorities := [Prio 0], indexMap := [1 \<mapsto> 0]\<rparr>)
       oneLoading"

text \<open>
  The thresholds of queue 0 are set to 2 and 2, then twenty Idle tiles are enqueued one
  by one (each element is the array holding the tile alone).
\<close>

definition twentyTiles :: "unit event list" where
  "twentyTiles = LoadMoreTiles 0 2 2 # map (Enqueue 0) (map (\<lambda>i. Element i ()) [1..<21])"

text \<open>
  One order in which the twenty loads can end: each tile is Loading when its turn
  comes, and ends Loaded, in Error or Empty.
\<close>

definition twentyFinish :: "(tile_ref \<times> TileState) list" where
  "twentyFinish =
     [(1, LOADED), (2, ERROR), (3, EMPTY), (19, LOADED), (18, LOADED), (17, ERROR),
      (16, LOADED), (15, LOADED), (14, EMPTY), (13, LOADED), (12, LOADED), (11, LOADED),
      (10, ERROR), (9, LOADED), (8, LOADED), (7, LOADED), (6, EMPTY), (5, LOADED),
      (4, LOADED), (20, LOADED)]"

text \<open>
  Two queues, 1 and 2, each with the thresholds 2 and 2, are fed the same twenty Idle
  tiles: each tile is enqueued into queue 1, then into queue 2.
\<close>

definition sharedTiles :: "unit event list" where
  "sharedTiles =
     [LoadMoreTiles 1 2 2, LoadMoreTiles 2 2 2]
     @ concat (map (\<lambda>i. [Enqueue 1 (Element i ()), Enqueue 2 (Element i ())]) [1..<21])"

text \<open>Seventeen Idle tiles are enqueued into queue 0, whose thresholds were never set.\<close>

definition seventeenTiles :: "unit event list" where
  "seventeenTiles = map (Enqueue 0) (map (\<lambda>i. Element i ()) [1..<18])"

text \<open>
  The thresholds of queue 0 are set to 2 and 2, then five Idle tiles are enqueued one by
  one.
\<close>

definition fiveTiles :: "unit event list" where
  "fiveTiles = LoadMoreTiles 0 2 2 # map (Enqueue 0) (map (\<lambda>i. Element i ()) [1..<6])"

section \<open>The heap operations touch the heap only\<close>

lemma siftDown_frame:
  assumes "\<And>i j h. f (swap i j h) = f h"
  shows "f (siftDown i h) = f h"
proof (induction i h rule: siftDown.induct)
  case (1 i h)
  show ?case
  proof (cases "smallest i h = i")
    case True
    then show ?thesis by (subst siftDown.simps) simp
  next
    case False
    then have "siftDown i h = siftDown (smallest i h) (swap i (smallest i h) h)"
      by (subst siftDown.simps) simp
    with False "1.IH" assms show ?thesis by simp
  qed
qed

lemma siftUp_frame:
  assumes "\<And>i j h. f (swap i j h) = f h"
  shows "f (siftUp i h) = f h"
proof (induction i h rule: siftUp.induct)
  case (1 i h)
  let ?c = "0 < i \<and> i < length (priorities h) \<and> i < length (elements h)
         \<and> prio_less (priorities h ! i) (priorities h ! ((i - 1) div 2))"
  show ?case
  proof (cases ?c)
    case False
    then show ?thesis by (subst siftUp.simps) (simp only: if_False)
  next
    case True
    then have "siftUp i h = siftUp ((i - 1) div 2) (swap i ((i - 1) div 2) h)"
      by (subst siftUp.simps) simp
    with True "1.IH" assms show ?thesis by simp
  qed
qed

lemma more_swap [simp]: "PriorityQueue.more (swap i j h) = PriorityQueue.more h"
  by (simp add: swap_def)

lemma priorityFunction_swap [simp]: "priorityFunction (swap i j h) = priorityFunction h"
  by (simp add: swap_def)

lemma more_siftDown [simp]: "PriorityQueue.more (siftDown i h) = PriorityQueue.more h"
  by (rule siftDown_frame) simp

lemma priorityFunction_siftDown [simp]: "priorityFunction (siftDown i h) = priorityFunction h"
  by (rule siftDown_frame) simp

lemma more_siftUp [simp]: "PriorityQueue.more (siftUp i h) = PriorityQueue.more h"
  by (rule siftUp_frame) simp

lemma priorityFunction_siftUp [simp]: "priorityFunction (siftUp i h) = priorityFunction h"
  by (rule siftUp_frame) simp

lemma dequeue_frame:
  assumes "PriorityQueue_dequeue h = Inr (e, h')"
  shows "PriorityQueue.more h' = PriorityQueue.more h" "priorityFunction h' = priorityFunction h"
  using assms by (auto simp: PriorityQueue_dequeue_def Let_def split: if_splits)


lemma more_eq_fields:
  fixes h h' :: "'a TileQueue"
  assumes "PriorityQueue.more h' = PriorityQueue.more h"
  shows "tilesLoading h' = tilesLoading h" "maxTotalLoading h' = maxTotalLoading h"
    "maxNewLoads h' = maxNewLoads h" "tileChangeCallbackCalls h' = tileChangeCallbackCalls h"
  using assms by (cases h; cases h'; simp)+


lemma dequeue_fields:
  fixes h :: "'a TileQueue"
  assumes "PriorityQueue_dequeue h = Inr (e, h')"
  shows "tilesLoading h' = tilesLoading h" "maxTotalLoading h' = maxTotalLoading h"
    "maxNewLoads h' = maxNewLoads h" "tileChangeCallbackCalls h' = tileChangeCallbackCalls h"
    "priorityFunction h' = priorityFunction h"
  using more_eq_fields [OF dequeue_frame(1) [OF assms]] dequeue_frame(2) [OF assms]
  by simp_all

lemma dequeue_nonempty:
  "0 < getCount h \<Longrightarrow> \<exists>e h'. PriorityQueue_dequeue h = Inr (e, h')"
  by (simp add: PriorityQueue_dequeue_def Let_def)

lemma body_discard:
  assumes "PriorityQueue_dequeue (queues w q) = Inr (e, tq)"
    and "priorityFunction (queues w q) e = DROP \<or> tileStates w (tile e) \<noteq> IDLE"
  shows "loadMoreTiles_body q n w = Inr (setQueue q tq w, n)"
  using assms dequeue_fields(5) [OF assms(1)]
  by (auto simp: loadMoreTiles_body_def Let_def getState_def)

lemma body_start:
  assumes "PriorityQueue_dequeue (queues w q) = Inr (e, tq)"
    and "priorityFunction (queues w q) e \<noteq> DROP" and "tileStates w (tile e) = IDLE"
  shows "loadMoreTiles_body q n w = Inr (started q (tile e) tq w, n + 1)"
  using assms dequeue_fields(5) [OF assms(1)]
  by (auto simp: loadMoreTiles_body_def Let_def getState_def started_def setQueue_def
      listen_def load_def)

lemma body_cases:
  assumes "0 < getCount (queues w q)"
  obtains (discard) e tq where "PriorityQueue_dequeue (queues w q) = Inr (e, tq)"
      and "priorityFunction (queues w q) e = DROP \<or> tileStates w (tile e) \<noteq> IDLE"
      and "loadMoreTiles_body q n w = Inr (setQueue q tq w, n)"
    | (start) e tq where "PriorityQueue_dequeue (queues w q) = Inr (e, tq)"
      and "priorityFunction (queues w q) e \<noteq> DROP" and "tileStates w (tile e) = IDLE"
      and "loadMoreTiles_body q n w = Inr (started q (tile e) tq w, n + 1)"
proof -
  from dequeue_nonempty [OF assms] obtain e tq
    where d: "PriorityQueue_dequeue (queues w q) = Inr (e, tq)" by blast
  show thesis
  proof (cases "priorityFunction (queues w q) e = DROP \<or> tileStates w (tile e) \<noteq> IDLE")
    case True
    with d show thesis by (intro discard [of e tq]) (auto simp: body_discard)
  next
    case False
    with d show thesis by (intro start [of e tq]) (auto simp: body_start)
  qed
qed

lemma loop_saturated:
  "saturated q mt mn n w \<Longrightarrow> loadMoreTiles_loop q mt mn n w = Inr (w, n)"
  by (subst loadMoreTiles_loop.simps) (auto simp: saturated_def)

lemma loop_unsaturated:
  "\<not> saturated q mt mn n w \<Longrightarrow> loadMoreTiles_body q n w = Inr (w', n') \<Longrightarrow>
     loadMoreTiles_loop q mt mn n w = loadMoreTiles_loop q mt mn n' w'"
  by (subst loadMoreTiles_loop.simps) (auto simp: saturated_def)

lemma loop_rule:
  assumes "P n w"
    and "\<And>n w n' w'. P n w \<Longrightarrow> \<not> saturated q mt mn n w \<Longrightarrow>
            loadMoreTiles_body q n w = Inr (w', n') \<Longrightarrow> P n' w'"
  shows "\<exists>w' n'. loadMoreTiles_loop q mt mn n w = Inr (w', n') \<and> P n' w' \<and> saturated q mt mn n' w'"
  using assms
proof (induction q mt mn n w rule: loadMoreTiles_loop.induct)
  case (1 q mt mn n w)
  note step = "1.prems"(2)
  show ?case
  proof (cases "saturated q mt mn n w")
    case True
    with "1.prems"(1) show ?thesis by (simp add: loop_saturated)
  next
    case False
    then have g: "tilesLoading (queues w q) < int mt \<and> n < mn \<and> getCount (queues w q) > 0"
      by (simp add: saturated_def)
    then obtain w1 n1 where b: "loadMoreTiles_body q n w = Inr (w1, n1)"
      by (elim conjE body_cases [of w q n]) blast+
    from False b have eq: "loadMoreTiles_loop q mt mn n w = loadMoreTiles_loop q mt mn n1 w1"
      by (rule loop_unsaturated)
    have "P n1 w1" using step [OF "1.prems"(1) False b] .
    from "1.IH" [OF g b refl this step] eq show ?thesis by simp
  qed
qed

lemma started_simps [simp]:
  "queues (started q t tq w) = (queues w)(q := tq\<lparr>tilesLoading := tilesLoading tq + 1\<rparr>)"
  "tileStates (started q t tq w) = (tileStates w)(t := LOADING)"
  "listeners (started q t tq w) =
     (listeners w)(t := (if q \<in> set (listeners w t) then listeners w t else listeners w t @ [q]))"
  by (simp_all add: started_def)

lemma body_counters:
  assumes "loadMoreTiles_body q n w = Inr (w', n')"
  shows "n \<le> n' \<and> n' \<le> n + 1
     \<and> tilesLoading (queues w' q) = tilesLoading (queues w q) + int (n' - n)
     \<and> maxTotalLoading (queues w' q) = maxTotalLoading (queues w q)
     \<and> maxNewLoads (queues w' q) = maxNewLoads (queues w q)
     \<and> tileChangeCallbackCalls (queues w' q) = tileChangeCallbackCalls (queues w q)
     \<and> priorityFunction (queues w' q) = priorityFunction (queues w q)"
proof -
  from getCount_loadMoreTiles_body [OF assms] have "0 < getCount (queues w q)" by simp
  then show ?thesis
  proof (cases rule: body_cases [of w q n])
    case (discard e tq)
    with assms dequeue_fields [OF discard(1)] show ?thesis by auto
  next
    case (start e tq)
    with assms dequeue_fields [OF start(1)] show ?thesis by auto
  qed
qed

text \<open>What a round of the loop can do to the store.\<close>

lemma body_frame:
  assumes "loadMoreTiles_body q n w = Inr (w', n')"
  shows "(\<forall>q'. q' \<noteq> q \<longrightarrow> queues w' q' = queues w q')
     \<and> (\<forall>t. tileStates w t \<noteq> IDLE \<longrightarrow>
            tileStates w' t = tileStates w t \<and> listeners w' t = listeners w t)
     \<and> (\<forall>t. tileStates w' t = tileStates w t \<or> tileStates w' t = LOADING)
     \<and> (\<forall>t. set (listeners w t) \<subseteq> set (listeners w' t))"
proof -
  from getCount_loadMoreTiles_body [OF assms] have "0 < getCount (queues w q)" by simp
  then show ?thesis
  proof (cases rule: body_cases [of w q n])
    case (discard e tq)
    with assms show ?thesis by auto
  next
    case (start e tq)
    with assms show ?thesis by auto
  qed
qed

text \<open>What a whole pass does to the store.\<close>

lemma pass_frame:
  "\<exists>w' newLoads.
     loadMoreTiles_loop q (maxTotalLoading (queues w q)) (maxNewLoads (queues w q)) 0 w
       = Inr (w', newLoads)
     \<and> loadMoreTiles_private q w = Inr w'
     \<and> tilesLoading (queues w' q) = tilesLoading (queues w q) + int newLoads
     \<and> newLoads \<le> maxNewLoads (queues w q)
     \<and> (tilesLoading (queues w q) \<le> int (maxTotalLoading (queues w q)) \<longrightarrow>
          tilesLoading (queues w' q) \<le> int (maxTotalLoading (queues w q)))
     \<and> maxTotalLoading (queues w' q) = maxTotalLoading (queues w q)
     \<and> maxNewLoads (queues w' q) = maxNewLoads (queues w q)
     \<and> tileChangeCallbackCalls (queues w' q) = tileChangeCallbackCalls (queues w q)
     \<and> priorityFunction (queues w' q) = priorityFunction (queues w q)
     \<and> (\<forall>q'. q' \<noteq> q \<longrightarrow> queues w' q' = queues w q')
     \<and> (\<forall>t. tileStates w t \<noteq> IDLE \<longrightarrow>
            tileStates w' t = tileStates w t \<and> listeners w' t = listeners w t)
     \<and> (\<forall>t. tileStates w' t = tileStates w t \<or> tileStates w' t = LOADING)
     \<and> (\<forall>t. set (listeners w t) \<subseteq> set (listeners w' t))"
proof -
  let ?mt = "maxTotalLoading (queues w q)" and ?mn = "maxNewLoads (queues w q)"
  let ?P = "\<lambda>n v. tilesLoading (queues v q) = tilesLoading (queues w q) + int n
     \<and> n \<le> ?mn
     \<and> (tilesLoading (queues w q) \<le> int ?mt \<longrightarrow> tilesLoading (queues v q) \<le> int ?mt)
     \<and> maxTotalLoading (queues v q) = maxTotalLoading (queues w q)
     \<and> maxNewLoads (queues v q) = maxNewLoads (queues w q)
     \<and> tileChangeCallbackCalls (queues v q) = tileChangeCallbackCalls (queues w q)
     \<and> priorityFunction (queues v q) = priorityFunction (queues w q)
     \<and> (\<forall>q'. q' \<noteq> q \<longrightarrow> queues v q' = queues w q')
     \<and> (\<forall>t. tileStates w t \<noteq> IDLE \<longrightarrow>
            tileStates v t = tileStates w t \<and> listeners v t = listeners w t)
     \<and> (\<forall>t. tileStates v t = tileStates w t \<or> tileStates v t = LOADING)
     \<and> (\<forall>t. set (listeners w t) \<subseteq> set (listeners v t))"
  have "\<exists>w' n'. loadMoreTiles_loop q ?mt ?mn 0 w = Inr (w', n') \<and> ?P n' w'
     \<and> saturated q ?mt ?mn n' w'"
  proof (rule loop_rule [where P = ?P])
    show "?P 0 w" by simp
  next
    fix n n' :: nat and v v' :: "'a world"
    assume p: "?P n v" and g: "\<not> saturated q ?mt ?mn n v"
      and b: "loadMoreTiles_body q n v = Inr (v', n')"
    from body_counters [OF b] p g
    have c: "tilesLoading (queues v' q) = tilesLoading (queues w q) + int n'
     \<and> n' \<le> ?mn
     \<and> (tilesLoading (queues w q) \<le> int ?mt \<longrightarrow> tilesLoading (queues v' q) \<le> int ?mt)
     \<and> maxTotalLoading (queues v' q) = maxTotalLoading (queues w q)
     \<and> maxNewLoads (queues v' q) = maxNewLoads (queues w q)
     \<and> tileChangeCallbackCalls (queues v' q) = tileChangeCallbackCalls (queues w q)
     \<and> priorityFunction (queues v' q) = priorityFunction (queues w q)"
      by (auto simp: saturated_def)
    note f = body_frame [OF b]
    from f p have 1: "\<forall>q'. q' \<noteq> q \<longrightarrow> queues v' q' = queues w q'" by simp
    from f p have 2: "\<forall>t. tileStates w t \<noteq> IDLE \<longrightarrow>
            tileStates v' t = tileStates w t \<and> listeners v' t = listeners w t"
      by metis
    from f p have 3: "\<forall>t. tileStates v' t = tileStates w t \<or> tileStates v' t = LOADING"
      by metis
    from f p have 4: "\<forall>t. set (listeners w t) \<subseteq> set (listeners v' t)"
      by (meson subset_trans)
    from c 1 2 3 4 show "?P n' v'" by blast
  qed
  then obtain w' n' where r: "loadMoreTiles_loop q ?mt ?mn 0 w = Inr (w', n')" and "?P n' w'"
    by blast
  moreover from r have "loadMoreTiles_private q w = Inr w'"
    by (simp add: loadMoreTiles_private_def)
  ultimately show ?thesis by blast
qed

lemma pass_total: "\<exists>w'. loadMoreTiles_private q w = Inr w'"
  using pass_frame [of q w] by blast

lemma handleTileChange_total: "\<exists>w'. handleTileChange q t w = Inr w'"
  by (simp only: handleTileChange_def Let_def pass_total)

lemma dispatchChange_total: "\<exists>w'. dispatchChange t qs w = Inr w'"
proof (induction qs arbitrary: w)
  case Nil
  show ?case by simp
next
  case (Cons q qs)
  from handleTileChange_total obtain w1 where "handleTileChange q t w = Inr w1" by blast
  with Cons.IH [of w1] Cons.IH [of w] show ?case by simp
qed

lemma step_total: "\<exists>w'. step ev w = Inr w'"
proof (cases ev)
  case (Enqueue q e)
  then show ?thesis by (simp add: enqueue_def pass_total)
next
  case (LoadMoreTiles q a b)
  then show ?thesis by (simp add: loadMoreTiles_def Let_def pass_total)
next
  case (TileChange t s)
  with dispatchChange_total show ?thesis by simp
qed

lemma siftDown_empty: "priorities h = [] \<Longrightarrow> siftDown i h = h"
  by (subst siftDown.simps) (simp add: smallest_def)

lemma dequeue_single:
  "elements h = [e] \<Longrightarrow> priorities h = [p] \<Longrightarrow>
   PriorityQueue_dequeue h =
     Inr (e, h\<lparr>elements := [], priorities := [], indexMap := (indexMap h)(keyFunction e := None)\<rparr>)"
  by (simp add: PriorityQueue_dequeue_def getCount_def Let_def swap_def siftDown_empty)

section \<open>What the heap holds\<close>

lemma set_elements_swap:
  "i < length (elements h) \<Longrightarrow> j < length (elements h) \<Longrightarrow>
     set (elements (swap i j h)) = set (elements h)"
  by (simp add: swap_def)

lemma smallest_bounds:
  "smallest i h \<noteq> i \<Longrightarrow> i < length (elements h) \<and> smallest i h < length (elements h)"
  by (auto simp: smallest_def Let_def split: if_splits)

lemma set_elements_siftDown: "set (elements (siftDown i h)) = set (elements h)"
proof (induction i h rule: siftDown.induct)
  case (1 i h)
  show ?case
  proof (cases "smallest i h = i")
    case True
    then show ?thesis by (subst siftDown.simps) simp
  next
    case False
    then have "siftDown i h = siftDown (smallest i h) (swap i (smallest i h) h)"
      by (subst siftDown.simps) simp
    with False "1.IH" smallest_bounds [OF False] show ?thesis
      by (simp add: set_elements_swap)
  qed
qed

lemma set_elements_siftUp: "set (elements (siftUp i h)) = set (elements h)"
proof (induction i h rule: siftUp.induct)
  case (1 i h)
  let ?c = "0 < i \<and> i < length (priorities h) \<and> i < length (elements h)
         \<and> prio_less (priorities h ! i) (priorities h ! ((i - 1) div 2))"
  show ?case
  proof (cases ?c)
    case False
    then show ?thesis by (subst siftUp.simps) (simp only: if_False)
  next
    case True
    then have "siftUp i h = siftUp ((i - 1) div 2) (swap i ((i - 1) div 2) h)"
      by (subst siftUp.simps) simp
    moreover have "(i - 1) div 2 \<le> i" by simp
    with True have "(i - 1) div 2 < length (elements h)" by linarith
    ultimately show ?thesis using True "1.IH" by (simp add: set_elements_swap)
  qed
qed

lemma dequeue_elements:
  assumes "PriorityQueue_dequeue h = Inr (e, h')"
  shows "e \<in> set (elements h)" and "set (elements h') \<subseteq> set (elements h)"
proof -
  from assms have n: "elements h \<noteq> []"
    by (auto simp: PriorityQueue_dequeue_def getCount_def split: if_splits)
  with assms have e: "e = elements h ! 0"
    by (auto simp: PriorityQueue_dequeue_def getCount_def Let_def split: if_splits)
  with n show "e \<in> set (elements h)" by simp
  let ?n = "length (elements h) - 1"
  from n have "set (elements (swap 0 ?n h)) = set (elements h)"
    by (intro set_elements_swap) simp_all
  moreover have "set (take ?n (elements (swap 0 ?n h))) \<subseteq> set (elements (swap 0 ?n h))"
    by (rule set_take_subset)
  moreover from assms n have "set (elements h') = set (take ?n (elements (swap 0 ?n h)))"
    by (auto simp: PriorityQueue_dequeue_def getCount_def Let_def set_elements_siftDown
        split: if_splits)
  ultimately show "set (elements h') \<subseteq> set (elements h)" by simp
qed

lemma enqueue_elements:
  "set (elements (PriorityQueue_enqueue e h)) \<subseteq> insert e (set (elements h))"
  by (auto simp: PriorityQueue_enqueue_def Let_def set_elements_siftUp)

lemma enqueue_fields:
  fixes h :: "'a TileQueue"
  shows "tilesLoading (PriorityQueue_enqueue e h) = tilesLoading h"
    "maxTotalLoading (PriorityQueue_enqueue e h) = maxTotalLoading h"
    "maxNewLoads (PriorityQueue_enqueue e h) = maxNewLoads h"
    "tileChangeCallbackCalls (PriorityQueue_enqueue e h) = tileChangeCallbackCalls h"
    "priorityFunction (PriorityQueue_enqueue e h) = priorityFunction h"
proof -
  have "PriorityQueue.more (PriorityQueue_enqueue e h) = PriorityQueue.more h"
    by (simp add: PriorityQueue_enqueue_def Let_def)
  from more_eq_fields [OF this]
  show "tilesLoading (PriorityQueue_enqueue e h) = tilesLoading h"
    "maxTotalLoading (PriorityQueue_enqueue e h) = maxTotalLoading h"
    "maxNewLoads (PriorityQueue_enqueue e h) = maxNewLoads h"
    "tileChangeCallbackCalls (PriorityQueue_enqueue e h) = tileChangeCallbackCalls h"
    by simp_all
  show "priorityFunction (PriorityQueue_enqueue e h) = priorityFunction h"
    by (simp add: PriorityQueue_enqueue_def Let_def)
qed

section \<open>The bookkeeping of a single queue\<close>

lemma body_accounted:
  assumes "accounted T q w" and "loadMoreTiles_body q n w = Inr (w', n')"
  shows "accounted T q w'"
proof -
  from getCount_loadMoreTiles_body [OF assms(2)] have "0 < getCount (queues w q)" by simp
  then show ?thesis
  proof (cases rule: body_cases [of w q n])
    case (discard e tq)
    with assms have w': "w' = setQueue q tq w" by simp
    from dequeue_elements(2) [OF discard(1)] dequeue_fields(1) [OF discard(1)] assms(1)
    show ?thesis unfolding w' accounted_def by auto
  next
    case (start e tq)
    with assms have w': "w' = started q (tile e) tq w" by simp
    let ?L = "{t. tileStates w t = LOADING}"
    from assms(1) have fin: "finite ?L"
      unfolding accounted_def using finite_subset by blast
    from start(3) have notin: "tile e \<notin> ?L" by simp
    have L': "{t. tileStates w' t = LOADING} = insert (tile e) ?L"
      unfolding w' by auto
    from dequeue_elements(1) [OF start(1)] assms(1) have inT: "tile e \<in> T"
      unfolding accounted_def by auto
    from dequeue_elements(2) [OF start(1)] assms(1)
    have els: "tile ` set (elements (queues w' q)) \<subseteq> T"
      unfolding w' accounted_def by auto
    from assms(1) dequeue_fields(1) [OF start(1)] fin notin
    have cnt: "tilesLoading (queues w' q) = int (card {t. tileStates w' t = LOADING})"
      unfolding L' unfolding w' accounted_def by simp
    from assms(1) start(3)
    have lis: "\<forall>t. listeners w' t = (if tileStates w' t = LOADING then [q] else [])"
      unfolding w' accounted_def by simp
    from assms(1) inT els cnt lis show ?thesis
      unfolding accounted_def L' by simp
  qed
qed

lemma pass_accounted:
  assumes "accounted T q w" and "loadMoreTiles_private q w = Inr w'"
    and "maxTotalLoading (queues w q) = mt" and "maxNewLoads (queues w q) = mn" and "mt \<le> mn"
  shows "steady T q mt mn w'"
proof -
  let ?P = "\<lambda>n v. accounted T q v
     \<and> tilesLoading (queues v q) = tilesLoading (queues w q) + int n
     \<and> maxTotalLoading (queues v q) = mt \<and> maxNewLoads (queues v q) = mn"
  have "\<exists>w' n'. loadMoreTiles_loop q mt mn 0 w = Inr (w', n') \<and> ?P n' w'
     \<and> saturated q mt mn n' w'"
  proof (rule loop_rule [where P = ?P])
    show "?P 0 w" using assms by simp
  next
    fix n n' :: nat and v v' :: "'a world"
    assume p: "?P n v" and b: "loadMoreTiles_body q n v = Inr (v', n')"
    from body_counters [OF b] body_accounted [OF _ b] p show "?P n' v'"
      by auto
  qed
  then obtain v n where r: "loadMoreTiles_loop q mt mn 0 w = Inr (v, n)" and p: "?P n v"
    and s: "saturated q mt mn n v"
    by blast
  from r assms have v: "v = w'" by (simp add: loadMoreTiles_private_def)
  from assms(1) have "0 \<le> tilesLoading (queues w q)" by (simp add: accounted_def)
  with p s assms(5) have "getCount (queues v q) = 0 \<or> int mt \<le> tilesLoading (queues v q)"
    by (auto simp: saturated_def)
  with p show ?thesis unfolding v steady_def by simp
qed

lemma handleTileChange_released:
  "getState t w = LOADED \<or> getState t w = ERROR \<or> getState t w = EMPTY \<Longrightarrow>
     handleTileChange q t w = loadMoreTiles_private q (released q t w)"
  by (auto simp: handleTileChange_def Let_def setQueue_def unlisten_def released_def)

lemma enqueue_steady:
  assumes "steady T q mt mn w" and "mt \<le> mn" and "tile e \<in> T" and "enqueue q e w = Inr w'"
  shows "steady T q mt mn w'"
proof -
  let ?w1 = "setQueue q (PriorityQueue_enqueue e (queues w q)) w"
  from assms(1,3) enqueue_elements [of e "queues w q"]
  have "accounted T q ?w1"
    unfolding steady_def accounted_def by (auto simp: enqueue_fields)
  moreover from assms(4) have "loadMoreTiles_private q ?w1 = Inr w'"
    by (simp add: enqueue_def)
  moreover from assms(1) have "maxTotalLoading (queues ?w1 q) = mt" "maxNewLoads (queues ?w1 q) = mn"
    by (simp_all add: steady_def enqueue_fields)
  ultimately show ?thesis using assms(2) by (rule pass_accounted)
qed

lemma loadMoreTiles_steady:
  assumes "accounted T q w" and "mt \<le> mn" and "loadMoreTiles q mt mn w = Inr w'"
  shows "steady T q mt mn w'"
proof -
  let ?w2 = "setQueue q ((queues w q)\<lparr>maxTotalLoading := mt, maxNewLoads := mn\<rparr>) w"
  from assms(1) have "accounted T q ?w2"
    unfolding accounted_def by simp
  moreover from assms(3) have "loadMoreTiles_private q ?w2 = Inr w'"
    by (simp add: loadMoreTiles_def Let_def setQueue_def)
  moreover have "maxTotalLoading (queues ?w2 q) = mt" "maxNewLoads (queues ?w2 q) = mn"
    by simp_all
  ultimately show ?thesis using assms(2) by (rule pass_accounted)
qed

lemma released_accounted:
  assumes "accounted T q w" and "tileStates w t = LOADING" and "s \<noteq> LOADING"
  shows "accounted T q (released q t (w\<lparr>tileStates := (tileStates w)(t := s)\<rparr>))"
proof -
  let ?w0 = "w\<lparr>tileStates := (tileStates w)(t := s)\<rparr>"
  let ?L = "{t. tileStates w t = LOADING}"
  from assms(1) have fin: "finite ?L"
    unfolding accounted_def using finite_subset by blast
  have L': "{u. tileStates (released q t ?w0) u = LOADING} = ?L - {t}"
    using assms(3) by (auto simp: released_def)
  from assms(2) fin have "card (?L - {t}) = card ?L - 1" "0 < card ?L"
    by (auto simp: card_gt_0_iff)
  then have c: "int (card (?L - {t})) = int (card ?L) - 1" by simp
  from assms(1) have "tilesLoading (queues (released q t ?w0) q) = int (card ?L) - 1"
    by (simp add: released_def accounted_def)
  with c have cnt: "tilesLoading (queues (released q t ?w0) q)
      = int (card {u. tileStates (released q t ?w0) u = LOADING})"
    unfolding L' by simp
  from assms have lis: "\<forall>u. listeners (released q t ?w0) u
      = (if tileStates (released q t ?w0) u = LOADING then [q] else [])"
    by (simp add: released_def accounted_def)
  from assms(1) have "finite T" "tile ` set (elements (queues (released q t ?w0) q)) \<subseteq> T"
    "?L - {t} \<subseteq> T"
    by (auto simp: released_def accounted_def)
  with cnt lis show ?thesis
    unfolding accounted_def L' by simp
qed

lemma completion_steady:
  assumes "steady T q mt mn w" and "mt \<le> mn" and "tileStates w t = LOADING"
    and "s = LOADED \<or> s = ERROR \<or> s = EMPTY" and "step (TileChange t s) w = Inr w'"
  shows "steady T q mt mn w'"
proof -
  let ?w0 = "w\<lparr>tileStates := (tileStates w)(t := s)\<rparr>"
  from assms(1,3) have l: "listeners w t = [q]"
    by (simp add: steady_def accounted_def)
  from assms(4) have h: "handleTileChange q t ?w0 = loadMoreTiles_private q (released q t ?w0)"
    by (intro handleTileChange_released) (simp add: getState_def)
  from pass_total obtain v where v: "loadMoreTiles_private q (released q t ?w0) = Inr v"
    by blast
  with assms(5) l h have w': "w' = v" by simp
  from assms(1,3,4) have "accounted T q (released q t ?w0)"
    by (intro released_accounted) (auto simp: steady_def)
  moreover from assms(1) have "maxTotalLoading (queues (released q t ?w0) q) = mt"
    "maxNewLoads (queues (released q t ?w0) q) = mn"
    by (simp_all add: released_def steady_def)
  ultimately show ?thesis using v assms(2) unfolding w' by (intro pass_accounted) 
qed

lemma enqueues_steady:
  "steady T q mt mn w \<Longrightarrow> mt \<le> mn \<Longrightarrow> tile ` set es \<subseteq> T \<Longrightarrow>
     run (map (Enqueue q) es) w = Inr w' \<Longrightarrow> steady T q mt mn w'"
proof (induction es arbitrary: w)
  case Nil
  then show ?case by simp
next
  case (Cons e es)
  from pass_total obtain w1 where w1: "enqueue q e w = Inr w1"
    unfolding enqueue_def by blast
  with Cons.prems have "steady T q mt mn w1"
    by (intro enqueue_steady [of T q mt mn w e w1]) simp_all
  with Cons.IH [of w1] Cons.prems w1 show ?case by simp
qed

lemma completions_steady:
  "steady T q mt mn w \<Longrightarrow> mt \<le> mn \<Longrightarrow> loadsFinish cs w \<Longrightarrow>
     run (map (\<lambda>(t, s). TileChange t s) cs) w = Inr w' \<Longrightarrow> steady T q mt mn w'"
proof (induction cs arbitrary: w)
  case Nil
  then show ?case by simp
next
  case (Cons c cs)
  obtain t s where c: "c = (t, s)" by (cases c)
  from Cons.prems(3) c obtain w1
    where w1: "step (TileChange t s) w = Inr w1" and f: "loadsFinish cs w1"
      and l: "tileStates w t = LOADING" and s: "s = LOADED \<or> s = ERROR \<or> s = EMPTY"
    by (auto split: sum.splits)
  from Cons.prems(1,2) l s w1 have "steady T q mt mn w1"
    by (rule completion_steady)
  moreover from Cons.prems(4) c w1 have "run (map (\<lambda>(t, s). TileChange t s) cs) w1 = Inr w'"
    by simp
  ultimately show ?case using Cons.IH [of w1] Cons.prems(2) f by simp
qed

lemma initial_accounted: "finite T \<Longrightarrow> accounted T q (initial pf)"
  by (simp add: accounted_def initial_def new_TileQueue_def)

lemma steady_drained:
  assumes "steady T q mt mn w" and "0 < mt" and "\<forall>t\<in>T. tileStates w t \<noteq> LOADING"
  shows "getCount (queues w q) = 0 \<and> tilesLoading (queues w q) = 0"
proof -
  from assms(1,3) have "{t. tileStates w t = LOADING} = {}"
    by (auto simp: steady_def accounted_def)
  with assms(1) have "tilesLoading (queues w q) = 0"
    by (simp add: steady_def accounted_def)
  with assms(1,2) show ?thesis by (auto simp: steady_def)
qed

lemma enqueues_bounded:
  "tilesLoading (queues w q) \<le> int (maxTotalLoading (queues w q)) \<Longrightarrow>
     \<exists>w'. run (map (Enqueue q) es) w = Inr w'
       \<and> tilesLoading (queues w' q) \<le> int (maxTotalLoading (queues w q))
       \<and> maxTotalLoading (queues w' q) = maxTotalLoading (queues w q)"
proof (induction es arbitrary: w)
  case Nil
  then show ?case by simp
next
  case (Cons e es)
  let ?w1 = "setQueue q (PriorityQueue_enqueue e (queues w q)) w"
  have f: "tilesLoading (queues ?w1 q) = tilesLoading (queues w q)"
    "maxTotalLoading (queues ?w1 q) = maxTotalLoading (queues w q)"
    by (simp_all add: enqueue_fields)
  from pass_frame [of q ?w1] obtain w2
    where p: "loadMoreTiles_private q ?w1 = Inr w2"
      and b: "tilesLoading (queues ?w1 q) \<le> int (maxTotalLoading (queues ?w1 q)) \<longrightarrow>
          tilesLoading (queues w2 q) \<le> int (maxTotalLoading (queues ?w1 q))"
      and m: "maxTotalLoading (queues w2 q) = maxTotalLoading (queues ?w1 q)"
    by blast
  from b f Cons.prems have b2: "tilesLoading (queues w2 q) \<le> int (maxTotalLoading (queues w2 q))"
    unfolding m by simp
  from p have e: "enqueue q e w = Inr w2" by (simp add: enqueue_def)
  from Cons.IH [OF b2] e m f show ?case by simp
qed

text \<open>The twenty tiles, evaluated.\<close>

lemma twentyTiles_admitted:
  "(case run twentyTiles (initial (\<lambda>e. Prio 0)) of
      Inl err \<Rightarrow> False
    | Inr w \<Rightarrow> getCount (queues w 0) = 18 \<and> getTilesLoading (queues w 0) = 2
        \<and> filter (\<lambda>t. tileStates w t = LOADING) [1..<21] = [1, 2])"
  by code_simp

lemma twentyTiles_finished:
  "(case run twentyTiles (initial (\<lambda>e. Prio 0)) of
      Inl err \<Rightarrow> False
    | Inr w \<Rightarrow> loadsFinish twentyFinish w
        \<and> (case run (map (\<lambda>(t, s). TileChange t s) twentyFinish) w of
             Inl err \<Rightarrow> False
           | Inr w' \<Rightarrow> (\<forall>t\<in>set [1..<21]. tileStates w' t \<noteq> LOADING)
               \<and> map (tileStates w') [1..<21] =
                   [LOADED, ERROR, EMPTY, LOADED, LOADED, EMPTY, LOADED, LOADED, LOADED, ERROR,
                    LOADED, LOADED, LOADED, EMPTY, LOADED, LOADED, ERROR, LOADED, LOADED, LOADED]))"
  by code_simp

section \<open>More fuel does not change a result\<close>

lemma andThen_mono:
  assumes "andThen r f = Some y"
    and "\<And>x. r = Some x \<Longrightarrow> r' = Some x"
    and "\<And>x z. f x = Some z \<Longrightarrow> f' x = Some z"
  shows "andThen r' f' = Some y"
proof (cases r)
  case None
  with assms(1) show ?thesis by (simp add: andThen_def)
next
  case (Some s)
  with assms(2) have r': "r' = Some s" by simp
  show ?thesis
  proof (cases s)
    case (Inl e)
    with Some assms(1) r' show ?thesis by (simp add: andThen_def)
  next
    case (Inr x)
    with Some assms(1) have "f x = Some y" by (simp add: andThen_def)
    then have "f' x = Some y" by (rule assms(3))
    with Inr r' show ?thesis by (simp add: andThen_def)
  qed
qed

lemma dispatch_mono:
  assumes "\<And>q v y. pass q v = Some y \<Longrightarrow> pass' q v = Some y"
  shows "dispatchChange_reentrant pass t qs w = Some y \<Longrightarrow>
     dispatchChange_reentrant pass' t qs w = Some y"
proof (induction qs arbitrary: w y)
  case Nil
  then show ?case by simp
next
  case (Cons q qs)
  show ?case
  proof (cases "q \<in> set (listeners w t)")
    case False
    with Cons show ?thesis by simp
  next
    case True
    with Cons.prems
    have "andThen (handleTileChange_reentrant pass q t w) (dispatchChange_reentrant pass t qs)
        = Some y"
      by simp
    then have "andThen (handleTileChange_reentrant pass' q t w) (dispatchChange_reentrant pass' t qs)
        = Some y"
    proof (rule andThen_mono)
      fix x assume "handleTileChange_reentrant pass q t w = Some x"
      then show "handleTileChange_reentrant pass' q t w = Some x"
        by (simp add: handleTileChange_reentrant_def Let_def assms)
    next
      fix x z assume "dispatchChange_reentrant pass t qs x = Some z"
      then show "dispatchChange_reentrant pass' t qs x = Some z" by (rule Cons.IH)
    qed
    with True show ?thesis by simp
  qed
qed

lemma load_mono:
  assumes "\<And>q v y. pass q v = Some y \<Longrightarrow> pass' q v = Some y"
    and "load_signalling pass t w = Some y"
  shows "load_signalling pass' t w = Some y"
  using assms(2) dispatch_mono [of pass pass', OF assms(1)]
  by (auto simp: load_signalling_def split: if_splits)

lemma body_mono:
  assumes "\<And>q v y. pass q v = Some y \<Longrightarrow> pass' q v = Some y"
    and "loadMoreTiles_body_reentrant pass q n w = Some y"
  shows "loadMoreTiles_body_reentrant pass' q n w = Some y"
proof (cases "PriorityQueue_dequeue (queues w q)")
  case (Inl e)
  with assms(2) show ?thesis by (simp add: loadMoreTiles_body_reentrant_def)
next
  case (Inr p)
  obtain e tq where p: "p = (e, tq)" by (cases p)
  let ?w1 = "setQueue q tq w"
  show ?thesis
  proof (cases "priorityFunction (queues ?w1 q) e \<noteq> DROP \<and> getState (tile e) ?w1 = IDLE")
    case False
    with Inr p assms(2) show ?thesis
      by (auto simp: loadMoreTiles_body_reentrant_def Let_def)
  next
    case True
    let ?w2 = "listen (tile e) q ?w1"
    let ?k = "\<lambda>w3. let w4 = setQueue q
                                 ((queues w3 q)\<lparr>tilesLoading := tilesLoading (queues w3 q) + 1\<rparr>) w3
                            in Some (Inr (w4, n + 1))"
    from True Inr p have e: "\<And>ps. loadMoreTiles_body_reentrant ps q n w
        = andThen (load_signalling ps (tile e) ?w2) ?k"
      by (simp add: loadMoreTiles_body_reentrant_def Let_def)
    from assms(2) have "andThen (load_signalling pass (tile e) ?w2) ?k = Some y"
      unfolding e .
    then have "andThen (load_signalling pass' (tile e) ?w2) ?k = Some y"
      by (rule andThen_mono) (auto intro: load_mono [OF assms(1)])
    then show ?thesis unfolding e .
  qed
qed

lemma loop_mono_Suc:
  "loadMoreTiles_loop_reentrant k q mt mn n w = Some y \<Longrightarrow>
     loadMoreTiles_loop_reentrant (Suc k) q mt mn n w = Some y"
proof (induction k arbitrary: q mt mn n w y)
  case 0
  then show ?case by (simp add: loadMoreTiles_loop_reentrant.simps)
next
  case (Suc k)
  let ?pass = "\<lambda>j q' v. andThen
                (loadMoreTiles_loop_reentrant j q'
                   (maxTotalLoading (queues v q')) (maxNewLoads (queues v q')) 0 v)
                (\<lambda>(v', newLoads'). Some (Inr v'))"
  have pm: "?pass (Suc k) q' v = Some z" if "?pass k q' v = Some z" for q' and v :: "'a world" and z
    using that
  proof (rule andThen_mono)
    fix x assume "loadMoreTiles_loop_reentrant k q'
        (maxTotalLoading (queues v q')) (maxNewLoads (queues v q')) 0 v = Some x"
    then show "loadMoreTiles_loop_reentrant (Suc k) q'
        (maxTotalLoading (queues v q')) (maxNewLoads (queues v q')) 0 v = Some x"
      by (rule Suc.IH)
  qed
  show ?case
  proof (cases "tilesLoading (queues w q) < int mt \<and> n < mn \<and> getCount (queues w q) > 0")
    case False
    with Suc.prems show ?thesis
      by (subst loadMoreTiles_loop_reentrant.simps)
         (subst (asm) loadMoreTiles_loop_reentrant.simps, auto)
  next
    case True
    have u: "loadMoreTiles_loop_reentrant (Suc j) q mt mn n w =
        andThen (loadMoreTiles_body_reentrant (?pass j) q n w)
          (\<lambda>(w', newLoads'). loadMoreTiles_loop_reentrant j q mt mn newLoads' w')" for j
      using True by (subst loadMoreTiles_loop_reentrant.simps) simp
    from Suc.prems have "andThen (loadMoreTiles_body_reentrant (?pass k) q n w)
          (\<lambda>(w', newLoads'). loadMoreTiles_loop_reentrant k q mt mn newLoads' w') = Some y"
      unfolding u .
    then have "andThen (loadMoreTiles_body_reentrant (?pass (Suc k)) q n w)
          (\<lambda>(w', newLoads'). loadMoreTiles_loop_reentrant (Suc k) q mt mn newLoads' w') = Some y"
    proof (rule andThen_mono)
      fix x assume "loadMoreTiles_body_reentrant (?pass k) q n w = Some x"
      then show "loadMoreTiles_body_reentrant (?pass (Suc k)) q n w = Some x"
        by (rule body_mono [rotated]) (rule pm)
    next
      fix x :: "'a world \<times> nat" and z
      assume "(case x of (w', newLoads') \<Rightarrow> loadMoreTiles_loop_reentrant k q mt mn newLoads' w')
          = Some z"
      then show "(case x of (w', newLoads') \<Rightarrow>
          loadMoreTiles_loop_reentrant (Suc k) q mt mn newLoads' w') = Some z"
        by (cases x) (auto intro: Suc.IH)
    qed
    then show ?thesis unfolding u [of "Suc k"] .
  qed
qed

lemma pass_mono_Suc:
  "loadMoreTiles_private_reentrant k q w = Some y \<Longrightarrow>
     loadMoreTiles_private_reentrant (Suc k) q w = Some y"
  unfolding loadMoreTiles_private_reentrant_def
  by (erule andThen_mono) (auto intro: loop_mono_Suc)

lemma step_mono_Suc:
  "step_reentrant k ev w = Some y \<Longrightarrow> step_reentrant (Suc k) ev w = Some y"
proof (cases ev)
  case (Enqueue q e)
  then show "step_reentrant k ev w = Some y \<Longrightarrow> ?thesis" by (simp add: pass_mono_Suc)
next
  case (LoadMoreTiles q a b)
  then show "step_reentrant k ev w = Some y \<Longrightarrow> ?thesis" by (simp add: Let_def pass_mono_Suc)
next
  case (TileChange t s)
  assume "step_reentrant k ev w = Some y"
  with TileChange show ?thesis
    using dispatch_mono [of "loadMoreTiles_private_reentrant k"
        "loadMoreTiles_private_reentrant (Suc k)", OF pass_mono_Suc]
    by simp
qed

lemma run_mono_Suc:
  "run_reentrant k evs w = Some y \<Longrightarrow> run_reentrant (Suc k) evs w = Some y"
proof (induction evs arbitrary: w y)
  case Nil
  then show ?case by simp
next
  case (Cons ev evs)
  from Cons.prems have "andThen (step_reentrant k ev w) (run_reentrant k evs) = Some y" by simp
  then have "andThen (step_reentrant (Suc k) ev w) (run_reentrant (Suc k) evs) = Some y"
    by (rule andThen_mono) (auto intro: step_mono_Suc Cons.IH)
  then show ?case by simp
qed

lemma pass_mono:
  "loadMoreTiles_private_reentrant k q w = Some y \<Longrightarrow>
     loadMoreTiles_private_reentrant (k + j) q w = Some y"
  by (induction j) (auto intro: pass_mono_Suc)

lemma run_mono:
  "run_reentrant k evs w = Some y \<Longrightarrow> run_reentrant (k + j) evs w = Some y"
  by (induction j) (auto intro: run_mono_Suc)

lemma step_mono:
  "step_reentrant k ev w = Some y \<Longrightarrow> step_reentrant (k + j) ev w = Some y"
  by (induction j) (auto intro: step_mono_Suc)

text \<open>The pass on three queued tiles and the five tiles, evaluated.\<close>

lemma threeQueued_reentrant:
  "(case loadMoreTiles_private_reentrant 4 0 threeQueued of
      Some (Inr w') \<Rightarrow>
        maxTotalLoading (queues w' 0) = 2
        \<and> tilesLoading (queues w' 0) = 3
        \<and> map (tileStates w') [1, 2, 3] = [LOADING, LOADING, LOADING]
        \<and> map (listeners w') [1, 2, 3] = [[0], [0], [0]]
        \<and> getCount (queues w' 0) = 0
    | _ \<Rightarrow> False)"
  by code_simp

lemma fiveTiles_reentrant:
  "(case run_reentrant 8 fiveTiles (initial (\<lambda>e. Prio 0)) of
      Some (Inr w) \<Rightarrow>
        maxTotalLoading (queues w 0) = 2
        \<and> maxNewLoads (queues w 0) = 2
        \<and> tilesLoading (queues w 0) = 2
        \<and> getCount (queues w 0) = 3
        \<and> map (tileStates w) [1..<6] = [LOADING, LOADING, IDLE, IDLE, IDLE]
        \<and> (case step_reentrant 8 (TileChange 1 LOADED) w of
              Some (Inr w') \<Rightarrow>
                maxTotalLoading (queues w' 0) = 2
                \<and> maxNewLoads (queues w' 0) = 2
                \<and> tilesLoading (queues w' 0) = 4
                \<and> getCount (queues w' 0) = 0
                \<and> map (tileStates w') [1..<6] = [LOADED, LOADING, LOADING, LOADING, LOADING]
            | _ \<Rightarrow> False)
    | _ \<Rightarrow> False)"
  by code_simp

section \<open>The drain pass and the budget\<close>

text \<open>
  C1: a pass of \<^verbatim>\<open>loadMoreTiles_\<close> entered with no more tiles loading than
  \<^verbatim>\<open>maxTotalLoading_\<close> is to leave no more tiles loading than \<^verbatim>\<open>maxTotalLoading_\<close>
  and to start at most \<^verbatim>\<open>maxNewLoads_\<close> loads. With a tile that signals its change
  to Loading inside \<^verbatim>\<open>load()\<close>, the code does not keep to it. A pass entered with
  nothing loading, three Idle tiles queued and the thresholds 2 and 5 returns with
  three tiles loading. With the thresholds 2 and 2 and five Idle tiles enqueued one by
  one, two tiles are loading and three are queued; when the load of tile 1 ends, the
  pass of the handler starts the three queued loads and returns with four tiles
  loading. Both hold for every amount of fuel from the one that suffices.
\<close>

theorem loadMoreTiles_exceeds_budget:
  "tilesLoading (queues threeQueued 0) \<le> int (maxTotalLoading (queues threeQueued 0))
   \<and> (\<forall>fuel. \<exists>w'.
         loadMoreTiles_private_reentrant (4 + fuel) 0 threeQueued = Some (Inr w')
         \<and> maxTotalLoading (queues w' 0) = 2
         \<and> tilesLoading (queues w' 0) = 3
         \<and> map (tileStates w') [1, 2, 3] = [LOADING, LOADING, LOADING]
         \<and> map (listeners w') [1, 2, 3] = [[0], [0], [0]]
         \<and> getCount (queues w' 0) = 0)
   \<and> (\<forall>fuel. \<exists>w w'.
         run_reentrant (8 + fuel) fiveTiles (initial (\<lambda>e. Prio 0)) = Some (Inr w)
         \<and> maxTotalLoading (queues w 0) = 2
         \<and> maxNewLoads (queues w 0) = 2
         \<and> tilesLoading (queues w 0) = 2
         \<and> getCount (queues w 0) = 3
         \<and> map (tileStates w) [1..<6] = [LOADING, LOADING, IDLE, IDLE, IDLE]
         \<and> step_reentrant (8 + fuel) (TileChange 1 LOADED) w = Some (Inr w')
         \<and> maxTotalLoading (queues w' 0) = 2
         \<and> maxNewLoads (queues w' 0) = 2
         \<and> tilesLoading (queues w' 0) = 4
         \<and> getCount (queues w' 0) = 0
         \<and> map (tileStates w') [1..<6] = [LOADED, LOADING, LOADING, LOADING, LOADING])"
proof (intro conjI allI)
  show "tilesLoading (queues threeQueued 0) \<le> int (maxTotalLoading (queues threeQueued 0))"
    by (simp add: threeQueued_def new_TileQueue_def)
next
  fix fuel
  from threeQueued_reentrant obtain w'
    where r: "loadMoreTiles_private_reentrant 4 0 threeQueued = Some (Inr w')"
      and p: "maxTotalLoading (queues w' 0) = 2" "tilesLoading (queues w' 0) = 3"
        "map (tileStates w') [1, 2, 3] = [LOADING, LOADING, LOADING]"
        "map (listeners w') [1, 2, 3] = [[0], [0], [0]]"
        "getCount (queues w' 0) = 0"
    by (cases "loadMoreTiles_private_reentrant 4 0 threeQueued") (auto split: sum.splits)
  from pass_mono [OF r, of fuel] p
  show "\<exists>w'. loadMoreTiles_private_reentrant (4 + fuel) 0 threeQueued = Some (Inr w')
         \<and> maxTotalLoading (queues w' 0) = 2
         \<and> tilesLoading (queues w' 0) = 3
         \<and> map (tileStates w') [1, 2, 3] = [LOADING, LOADING, LOADING]
         \<and> map (listeners w') [1, 2, 3] = [[0], [0], [0]]
         \<and> getCount (queues w' 0) = 0"
    by (intro exI [of _ w']) simp
next
  fix fuel
  let ?w0 = "initial (\<lambda>e. Prio 0) :: unit world"
  from fiveTiles_reentrant obtain w
    where r: "run_reentrant 8 fiveTiles ?w0 = Some (Inr w)"
      and p: "maxTotalLoading (queues w 0) = 2" "maxNewLoads (queues w 0) = 2"
        "tilesLoading (queues w 0) = 2" "getCount (queues w 0) = 3"
        "map (tileStates w) [1..<6] = [LOADING, LOADING, IDLE, IDLE, IDLE]"
      and c: "(case step_reentrant 8 (TileChange 1 LOADED) w of
              Some (Inr w') \<Rightarrow>
                maxTotalLoading (queues w' 0) = 2
                \<and> maxNewLoads (queues w' 0) = 2
                \<and> tilesLoading (queues w' 0) = 4
                \<and> getCount (queues w' 0) = 0
                \<and> map (tileStates w') [1..<6] = [LOADED, LOADING, LOADING, LOADING, LOADING]
            | _ \<Rightarrow> False)"
    by (cases "run_reentrant 8 fiveTiles ?w0") (auto split: sum.splits)
  from c obtain w'
    where r': "step_reentrant 8 (TileChange 1 LOADED) w = Some (Inr w')"
      and p': "maxTotalLoading (queues w' 0) = 2" "maxNewLoads (queues w' 0) = 2"
        "tilesLoading (queues w' 0) = 4" "getCount (queues w' 0) = 0"
        "map (tileStates w') [1..<6] = [LOADED, LOADING, LOADING, LOADING, LOADING]"
    by (cases "step_reentrant 8 (TileChange 1 LOADED) w") (auto split: sum.splits)
  from run_mono [OF r, of fuel] step_mono [OF r', of fuel] p p'
  show "\<exists>w w'.
         run_reentrant (8 + fuel) fiveTiles (initial (\<lambda>e. Prio 0)) = Some (Inr w)
         \<and> maxTotalLoading (queues w 0) = 2
         \<and> maxNewLoads (queues w 0) = 2
         \<and> tilesLoading (queues w 0) = 2
         \<and> getCount (queues w 0) = 3
         \<and> map (tileStates w) [1..<6] = [LOADING, LOADING, IDLE, IDLE, IDLE]
         \<and> step_reentrant (8 + fuel) (TileChange 1 LOADED) w = Some (Inr w')
         \<and> maxTotalLoading (queues w' 0) = 2
         \<and> maxNewLoads (queues w' 0) = 2
         \<and> tilesLoading (queues w' 0) = 4
         \<and> getCount (queues w' 0) = 0
         \<and> map (tileStates w') [1..<6] = [LOADED, LOADING, LOADING, LOADING, LOADING]"
    by (intro exI [of _ w] exI [of _ w']) simp
qed

section \<open>Completion and change events\<close>





section \<open>Elements discarded by a pass\<close>

text \<open>
  C4: the round that dequeues an element applies the queue's current priority function
  to it; when the answer is \<open>DROP\<close> the element is gone from the queue, no tile
  changes state, no subscription is made, and neither the number of tiles loading nor
  the counter of new loads changes.
\<close>

theorem dropped_at_dequeue:
  assumes "PriorityQueue_dequeue (queues w q) = Inr (tileStruct, tq)"
    and "priorityFunction (queues w q) tileStruct = DROP"
  shows "\<exists>w'. loadMoreTiles_body q newLoads w = Inr (w', newLoads)
     \<and> queues w' q = tq
     \<and> tileStates w' = tileStates w
     \<and> listeners w' = listeners w
     \<and> tilesLoading (queues w' q) = tilesLoading (queues w q)"
  using body_discard [of w q tileStruct tq newLoads] assms dequeue_fields(1) [OF assms(1)]
  by simp

theorem dropped_at_dequeue_witness:
  "PriorityQueue_dequeue (queues staleQueued 0) = Inr (Element 1 (), new_TileQueue (\<lambda>e. DROP))
   \<and> priorities (queues staleQueued 0) = [Prio 5]
   \<and> priorityFunction (queues staleQueued 0) (Element 1 ()) = DROP
   \<and> (\<exists>w'. loadMoreTiles_body 0 0 staleQueued = Inr (w', 0)
         \<and> queues w' 0 = new_TileQueue (\<lambda>e. DROP)
         \<and> tileStates w' = tileStates staleQueued
         \<and> listeners w' = listeners staleQueued
         \<and> tilesLoading (queues w' 0) = tilesLoading (queues staleQueued 0))"
proof -
  have d: "PriorityQueue_dequeue (queues staleQueued 0)
      = Inr (Element 1 (), new_TileQueue (\<lambda>e. DROP))"
    by (simp add: staleQueued_def new_TileQueue_def dequeue_single keyFunction_def)
  have p: "priorityFunction (queues staleQueued 0) (Element 1 ()) = DROP"
    by (simp add: staleQueued_def new_TileQueue_def)
  have s: "priorities (queues staleQueued 0) = [Prio 5]"
    by (simp add: staleQueued_def)
  from dropped_at_dequeue [OF d p, of 0] d p s show ?thesis
    by simp
qed

text \<open>
  C5: the round that dequeues an element whose tile is not Idle discards it: no tile
  changes state, no subscription is made, and neither the number of tiles loading nor
  the counter of new loads changes; the loop goes on from there with the same counter.
\<close>

theorem busy_tile_discarded:
  assumes "PriorityQueue_dequeue (queues w q) = Inr (tileStruct, tq)"
    and "getState (tile tileStruct) w \<noteq> IDLE"
  shows "\<exists>w'. loadMoreTiles_body q newLoads w = Inr (w', newLoads)
     \<and> queues w' q = tq
     \<and> tileStates w' = tileStates w
     \<and> listeners w' = listeners w
     \<and> tilesLoading (queues w' q) = tilesLoading (queues w q)
     \<and> loadMoreTiles_loop q maxTotalLoading' maxNewLoads' newLoads w =
         (if saturated q maxTotalLoading' maxNewLoads' newLoads w then Inr (w, newLoads)
          else loadMoreTiles_loop q maxTotalLoading' maxNewLoads' newLoads w')"
proof -
  from assms have b: "loadMoreTiles_body q newLoads w = Inr (setQueue q tq w, newLoads)"
    by (intro body_discard [of w q tileStruct tq newLoads]) (simp_all add: getState_def)
  have "loadMoreTiles_loop q maxTotalLoading' maxNewLoads' newLoads w =
         (if saturated q maxTotalLoading' maxNewLoads' newLoads w then Inr (w, newLoads)
          else loadMoreTiles_loop q maxTotalLoading' maxNewLoads' newLoads (setQueue q tq w))"
    using loop_saturated [of q maxTotalLoading' maxNewLoads' newLoads w]
      loop_unsaturated [OF _ b, of maxTotalLoading' maxNewLoads']
    by simp
  with b dequeue_fields(1) [OF assms(1)] show ?thesis by simp
qed

theorem busy_tile_discarded_witness:
  "PriorityQueue_dequeue (queues busyQueued 0) = Inr (Element 1 (), queues oneLoading 0)
   \<and> getState (tile (Element 1 ())) busyQueued \<noteq> IDLE
   \<and> tilesLoading (queues busyQueued 0) = 1
   \<and> \<not> saturated 0 16 16 0 busyQueued
   \<and> (\<exists>w'. loadMoreTiles_body 0 0 busyQueued = Inr (w', 0)
         \<and> tileStates w' = tileStates busyQueued
         \<and> listeners w' = listeners busyQueued
         \<and> tilesLoading (queues w' 0) = 1
         \<and> loadMoreTiles_loop 0 16 16 0 busyQueued = loadMoreTiles_loop 0 16 16 0 w')"
proof -
  have d: "PriorityQueue_dequeue (queues busyQueued 0) = Inr (Element 1 (), queues oneLoading 0)"
    by (simp add: busyQueued_def oneLoading_def new_TileQueue_def dequeue_single keyFunction_def)
  have p: "getState (tile (Element 1 ())) busyQueued \<noteq> IDLE"
    by (simp add: busyQueued_def oneLoading_def getState_def)
  have s: "tilesLoading (queues busyQueued 0) = 1"
    by (simp add: busyQueued_def oneLoading_def new_TileQueue_def)
  have u: "\<not> saturated 0 16 16 0 busyQueued"
    by (simp add: saturated_def busyQueued_def oneLoading_def new_TileQueue_def getCount_def)
  from busy_tile_discarded [OF d p, of 0 16 16] obtain w'
    where "loadMoreTiles_body 0 0 busyQueued = Inr (w', 0)"
      and "tileStates w' = tileStates busyQueued"
      and "listeners w' = listeners busyQueued"
      and "tilesLoading (queues w' 0) = tilesLoading (queues busyQueued 0)"
      and "loadMoreTiles_loop 0 16 16 0 busyQueued =
         (if saturated 0 16 16 0 busyQueued then Inr (busyQueued, 0)
          else loadMoreTiles_loop 0 16 16 0 w')"
    by blast
  with s u have "\<exists>w'. loadMoreTiles_body 0 0 busyQueued = Inr (w', 0)
         \<and> tileStates w' = tileStates busyQueued
         \<and> listeners w' = listeners busyQueued
         \<and> tilesLoading (queues w' 0) = 1
         \<and> loadMoreTiles_loop 0 16 16 0 busyQueued = loadMoreTiles_loop 0 16 16 0 w'"
    by (intro exI [of _ w']) simp
  with d p s u show ?thesis by blast
qed

section \<open>Setting the thresholds\<close>


section \<open>The queue never dequeues from an empty heap\<close>

text \<open>
  C8: a dequeue on an empty heap fails with \<open>EmptyQueueError\<close>, but the queue never
  runs into it: the loop of \<^verbatim>\<open>loadMoreTiles_\<close>, entered from any store and with any
  counter, returns without the error, and so does every sequence of enqueues,
  threshold settings and tile change events.
\<close>

theorem dequeue_on_empty_unreachable:
  "PriorityQueue_dequeue (new_TileQueue pf) = Inl EmptyQueueError
   \<and> (\<exists>w' newLoads'. loadMoreTiles_loop q maxTotalLoading' maxNewLoads' newLoads w = Inr (w', newLoads'))
   \<and> (\<exists>w'. run evs w = Inr w')"
proof (intro conjI)
  show "PriorityQueue_dequeue (new_TileQueue pf) = Inl EmptyQueueError"
    by (simp add: PriorityQueue_dequeue_def getCount_def new_TileQueue_def)
next
  from loop_rule [of "\<lambda>n v. True" newLoads w q maxTotalLoading' maxNewLoads']
  show "\<exists>w' newLoads'. loadMoreTiles_loop q maxTotalLoading' maxNewLoads' newLoads w = Inr (w', newLoads')"
    by blast
next
  show "\<exists>w'. run evs w = Inr w'"
  proof (induction evs arbitrary: w)
    case Nil
    show ?case by simp
  next
    case (Cons ev evs)
    from step_total obtain w1 where "step ev w = Inr w1" by blast
    with Cons.IH [of w1] show ?case by simp
  qed
qed

section \<open>The budget at work\<close>

text \<open>
  C2: with the thresholds 2 and 2, once twenty Idle tiles have been enqueued one by
  one, exactly two tiles are Loading (the queue counts two tiles loading) and eighteen
  remain queued. From there, whatever the order in which the loads end and whichever
  terminal state each ends in, once no tile is Loading any more nothing is queued and
  no tile is counted as loading.
\<close>

theorem budget_respected_twenty_tiles:
  "\<exists>w. run twentyTiles (initial (\<lambda>e. Prio 0)) = Inr w
     \<and> getCount (queues w 0) = 18
     \<and> getTilesLoading (queues w 0) = 2
     \<and> {t. tileStates w t = LOADING} = {1, 2}
     \<and> (\<forall>cs w'. loadsFinish cs w
            \<and> run (map (\<lambda>(t, s). TileChange t s) cs) w = Inr w'
            \<and> (\<forall>t\<in>set [1..<21]. tileStates w' t \<noteq> LOADING)
          \<longrightarrow> getCount (queues w' 0) = 0 \<and> getTilesLoading (queues w' 0) = 0)"
proof -
  let ?w0 = "initial (\<lambda>e. Prio 0) :: unit world"
  let ?T = "set [1..<21]"
  from twentyTiles_admitted obtain w where w: "run twentyTiles ?w0 = Inr w"
    and a: "getCount (queues w 0) = 18" "getTilesLoading (queues w 0) = 2"
      "filter (\<lambda>t. tileStates w t = LOADING) [1..<21] = [1, 2]"
    by (cases "run twentyTiles ?w0") simp_all
  from pass_total obtain w1 where w1: "loadMoreTiles 0 2 2 ?w0 = Inr w1"
    unfolding loadMoreTiles_def Let_def by blast
  have "accounted ?T 0 ?w0" by (rule initial_accounted) simp
  from this _ w1 have s1: "steady ?T 0 2 2 w1" by (rule loadMoreTiles_steady) simp
  from w w1 have "run (map (Enqueue 0) (map (\<lambda>i. Element i ()) [1..<21])) w1 = Inr w"
    by (simp add: twentyTiles_def)
  moreover have "tile ` set (map (\<lambda>i. Element i ()) [1..<21]) \<subseteq> ?T" by auto
  ultimately have s: "steady ?T 0 2 2 w"
    using s1 by (intro enqueues_steady [of ?T 0 2 2 w1 "map (\<lambda>i. Element i ()) [1..<21]" w]) simp_all
  then have "{t. tileStates w t = LOADING} \<subseteq> ?T"
    by (simp add: steady_def accounted_def)
  then have "{t. tileStates w t = LOADING} = set (filter (\<lambda>t. tileStates w t = LOADING) [1..<21])"
    by auto
  with a(3) have l: "{t. tileStates w t = LOADING} = {1, 2}" by simp
  have "getCount (queues w' 0) = 0 \<and> getTilesLoading (queues w' 0) = 0"
    if f: "loadsFinish cs w" and r: "run (map (\<lambda>(t, s). TileChange t s) cs) w = Inr w'"
      and d: "\<forall>t\<in>?T. tileStates w' t \<noteq> LOADING" for cs w'
  proof -
    from s _ f r have "steady ?T 0 2 2 w'" by (rule completions_steady) simp
    from steady_drained [OF this _ d] show ?thesis by (simp add: getTilesLoading_def)
  qed
  with w a(1,2) l show ?thesis by blast
qed

theorem budget_respected_twenty_tiles_witness:
  "\<exists>w w'. run twentyTiles (initial (\<lambda>e. Prio 0)) = Inr w
     \<and> loadsFinish twentyFinish w
     \<and> run (map (\<lambda>(t, s). TileChange t s) twentyFinish) w = Inr w'
     \<and> map (tileStates w') [1..<21] =
           [LOADED, ERROR, EMPTY, LOADED, LOADED, EMPTY, LOADED, LOADED, LOADED, ERROR,
            LOADED, LOADED, LOADED, EMPTY, LOADED, LOADED, ERROR, LOADED, LOADED, LOADED]
     \<and> getCount (queues w' 0) = 0 \<and> getTilesLoading (queues w' 0) = 0"
proof -
  let ?w0 = "initial (\<lambda>e. Prio 0) :: unit world"
  from budget_respected_twenty_tiles obtain w where w: "run twentyTiles ?w0 = Inr w"
    and c: "\<And>cs w'. loadsFinish cs w \<Longrightarrow> run (map (\<lambda>(t, s). TileChange t s) cs) w = Inr w'
         \<Longrightarrow> \<forall>t\<in>set [1..<21]. tileStates w' t \<noteq> LOADING
         \<Longrightarrow> getCount (queues w' 0) = 0 \<and> getTilesLoading (queues w' 0) = 0"
    by blast
  from twentyTiles_finished w have f: "loadsFinish twentyFinish w"
    and r: "(case run (map (\<lambda>(t, s). TileChange t s) twentyFinish) w of
             Inl err \<Rightarrow> False
           | Inr w' \<Rightarrow> (\<forall>t\<in>set [1..<21]. tileStates w' t \<noteq> LOADING)
               \<and> map (tileStates w') [1..<21] =
                   [LOADED, ERROR, EMPTY, LOADED, LOADED, EMPTY, LOADED, LOADED, LOADED, ERROR,
                    LOADED, LOADED, LOADED, EMPTY, LOADED, LOADED, ERROR, LOADED, LOADED, LOADED])"
    by simp_all
  from r obtain w' where w': "run (map (\<lambda>(t, s). TileChange t s) twentyFinish) w = Inr w'"
    and d: "\<forall>t\<in>set [1..<21]. tileStates w' t \<noteq> LOADING"
    and m: "map (tileStates w') [1..<21] =
           [LOADED, ERROR, EMPTY, LOADED, LOADED, EMPTY, LOADED, LOADED, LOADED, ERROR,
            LOADED, LOADED, LOADED, EMPTY, LOADED, LOADED, ERROR, LOADED, LOADED, LOADED]"
    by (cases "run (map (\<lambda>(t, s). TileChange t s) twentyFinish) w") simp_all
  from c [OF f w' d] w f w' m show ?thesis
    by (intro exI [of _ w] exI [of _ w']) simp
qed

text \<open>
  C6: two queues with the thresholds 2 and 2 each, fed the same twenty Idle tiles (each
  tile enqueued into the first, then into the second), keep to their own budget: the
  first has eighteen tiles queued and two loading, the second sixteen queued and two
  loading. Tiles 1 and 2 are loaded by the first queue alone, which is the only one
  listening to them; the second queue has discarded them without counting them, and
  loads tiles 3 and 4.
\<close>

theorem shared_tiles_two_queues:
  "\<exists>w. run sharedTiles (initial (\<lambda>e. Prio 0)) = Inr w
     \<and> getCount (queues w 1) = 18 \<and> getCount (queues w 2) = 16
     \<and> getTilesLoading (queues w 1) = 2 \<and> getTilesLoading (queues w 2) = 2
     \<and> filter (\<lambda>t. tileStates w t = LOADING) [1..<21] = [1, 2, 3, 4]
     \<and> map (listeners w) [1, 2, 3, 4] = [[1], [1], [2], [2]]"
proof -
  have "(case run sharedTiles (initial (\<lambda>e. Prio 0)) of
      Inl err \<Rightarrow> False
    | Inr w \<Rightarrow> getCount (queues w 1) = 18 \<and> getCount (queues w 2) = 16
     \<and> getTilesLoading (queues w 1) = 2 \<and> getTilesLoading (queues w 2) = 2
     \<and> filter (\<lambda>t. tileStates w t = LOADING) [1..<21] = [1, 2, 3, 4]
     \<and> map (listeners w) [1, 2, 3, 4] = [[1], [1], [2], [2]])"
    by code_simp
  then show ?thesis
    by (cases "run sharedTiles (initial (\<lambda>e. Prio 0) :: unit world)") simp_all
qed

text \<open>
  C9: a queue fresh from the constructor has nothing queued, no tile loading, and both
  thresholds at 16. Enqueues alone, with the thresholds never set, then start sixteen
  loads (of seventeen Idle tiles enqueued, sixteen are Loading and one stays queued),
  and never have more than sixteen tiles loading.
\<close>

theorem constructor_defaults:
  "tilesLoading (new_TileQueue pf) = 0
   \<and> maxTotalLoading (new_TileQueue pf) = 16
   \<and> maxNewLoads (new_TileQueue pf) = 16
   \<and> getCount (new_TileQueue pf) = 0
   \<and> (\<exists>w. run seventeenTiles (initial (\<lambda>e. Prio 0)) = Inr w
         \<and> getTilesLoading (queues w 0) = 16
         \<and> getCount (queues w 0) = 1
         \<and> filter (\<lambda>t. tileStates w t = LOADING) [1..<18] = [1..<17])
   \<and> (\<forall>es. \<exists>w. run (map (Enqueue q) es) (initial pf') = Inr w
         \<and> getTilesLoading (queues w q) \<le> 16)"
proof -
  have d: "tilesLoading (new_TileQueue pf) = 0 \<and> maxTotalLoading (new_TileQueue pf) = 16
     \<and> maxNewLoads (new_TileQueue pf) = 16 \<and> getCount (new_TileQueue pf) = 0"
    by (simp add: new_TileQueue_def getCount_def)
  have "(case run seventeenTiles (initial (\<lambda>e. Prio 0)) of
      Inl err \<Rightarrow> False
    | Inr w \<Rightarrow> getTilesLoading (queues w 0) = 16 \<and> getCount (queues w 0) = 1
        \<and> filter (\<lambda>t. tileStates w t = LOADING) [1..<18] = [1..<17])"
    by code_simp
  then have s: "\<exists>w. run seventeenTiles (initial (\<lambda>e. Prio 0)) = Inr w
         \<and> getTilesLoading (queues w 0) = 16
         \<and> getCount (queues w 0) = 1
         \<and> filter (\<lambda>t. tileStates w t = LOADING) [1..<18] = [1..<17]"
    by (cases "run seventeenTiles (initial (\<lambda>e. Prio 0) :: unit world)") simp_all
  have b: "\<exists>w. run (map (Enqueue q) es) (initial pf') = Inr w
         \<and> getTilesLoading (queues w q) \<le> 16" for es
  proof -
    have "tilesLoading (queues (initial pf') q) \<le> int (maxTotalLoading (queues (initial pf') q))"
      "maxTotalLoading (queues (initial pf') q) = 16"
      by (simp_all add: initial_def new_TileQueue_def)
    with enqueues_bounded [of "initial pf'" q es] show ?thesis
      by (auto simp: getTilesLoading_def)
  qed
  from d s b show ?thesis by blast
qed

end
